theory Spec2Isabelle
  imports Complex_Main
begin

section \<open>Interval algebra\<close>

text \<open>
  A time interval is the two-element Python list \<open>[start, end]\<close>, in seconds. Times
  are modelled as reals. The functions below are the methods of
  \<^verbatim>\<open>toolkit_ops.py\<close>, with the same names and the same order of tests. Interval lists hold
  pairwise different list objects (they are read from settings or built afresh), so the
  in-place update \<^verbatim>\<open>current_timestamp[1] = interval[1]\<close> is modelled on values.
\<close>

type_synonym interval = "real \<times> real"

datatype py_error = ZeroDivisionError | IndexError | KeyError | AttributeError | TypeError

subsection \<open>\<^verbatim>\<open>combine_intervals\<close>\<close>

text \<open>
  The loop of \<^verbatim>\<open>combine_intervals\<close>: \<open>new_intervals\<close> is the list built so far,
  \<open>cur\<close> is \<^verbatim>\<open>current_timestamp\<close>, the last argument is what is left of
  \<^verbatim>\<open>intervals[1:]\<close>.
\<close>

fun combine_loop :: "real \<Rightarrow> interval list \<Rightarrow> interval \<Rightarrow> interval list \<Rightarrow> interval list" where
  "combine_loop g new_intervals cur [] = new_intervals @ [cur]"
| "combine_loop g new_intervals cur (iv # rest) =
     (if fst iv - snd cur \<le> g
      then combine_loop g new_intervals (fst cur, snd iv) rest
      else combine_loop g (new_intervals @ [cur]) iv rest)"

text \<open>\<^verbatim>\<open>sorted(intervals, key=lambda x: x[0])\<close> is a stable sort on the start, as \<open>sort_key fst\<close>.\<close>

definition combine_intervals :: "interval list \<Rightarrow> real \<Rightarrow> interval list" where
  "combine_intervals intervals combine_min_time =
     (if intervals = [] then []
      else case sort_key fst intervals of
             [] \<Rightarrow> []
           | cur # rest \<Rightarrow> combine_loop combine_min_time [] cur rest)"

text \<open>A time \<open>t\<close> lies in one of the intervals of a list.\<close>

definition covered :: "interval list \<Rightarrow> real \<Rightarrow> bool" where
  "covered ivs t = list_ex (\<lambda>iv. fst iv \<le> t \<and> t \<le> snd iv) ivs"

subsection \<open>\<^verbatim>\<open>combine_overlapping_intervals\<close>\<close>

text \<open>
  Both arguments may be \<^verbatim>\<open>None\<close>, a \<^verbatim>\<open>bool\<close> or a list of intervals; the result is
  \<^verbatim>\<open>None\<close> or a list.
\<close>

datatype ivarg = PyNone | PyBool bool | PyList "interval list"

fun is_bool :: "ivarg \<Rightarrow> bool" where
  "is_bool (PyBool b) = True"
| "is_bool a = False"

definition intersecting_intervals :: "interval list \<Rightarrow> interval list \<Rightarrow> interval list" where
  "intersecting_intervals intervals additional_intervals =
     concat (map (\<lambda>interval.
       concat (map (\<lambda>additional_interval.
         if fst additional_interval \<le> snd interval \<and> snd additional_interval \<ge> fst interval
         then [(max (fst interval) (fst additional_interval),
                min (snd interval) (snd additional_interval))]
         else []) additional_intervals)) intervals)"

definition combine_overlapping_intervals :: "ivarg \<Rightarrow> ivarg \<Rightarrow> interval list option" where
  "combine_overlapping_intervals intervals additional_intervals =
     (if ((intervals = PyNone \<or> is_bool intervals) \<and> additional_intervals = PyNone)
          \<or> is_bool additional_intervals
      then None
      else if (intervals = PyNone \<or> is_bool intervals)
              \<and> additional_intervals \<noteq> PyNone \<and> \<not> is_bool additional_intervals
      then (case additional_intervals of PyList adds \<Rightarrow> Some adds | _ \<Rightarrow> None)
      else (case intervals of
              PyList ivs \<Rightarrow>
                (let sorted_ivs = sort_key fst ivs in
                 case additional_intervals of
                   PyList adds \<Rightarrow> Some (intersecting_intervals sorted_ivs (sort_key fst adds))
                 | _ \<Rightarrow> Some sorted_ivs)
            | _ \<Rightarrow> None))"

subsection \<open>\<^verbatim>\<open>split_audio_by_intervals\<close>\<close>

text \<open>
  The audio is an array of samples. \<^verbatim>\<open>int(x)\<close> truncates towards zero, and a slice
  \<^verbatim>\<open>a[i:j]\<close> counts a negative index from the end and clips both indices to the array.
\<close>

type_synonym audio = "real list"
type_synonym audio_segment = "real \<times> real \<times> audio"

definition py_int :: "real \<Rightarrow> int" where
  "py_int x = (if 0 \<le> x then \<lfloor>x\<rfloor> else \<lceil>x\<rceil>)"

definition py_slice :: "'a list \<Rightarrow> int \<Rightarrow> int \<Rightarrow> 'a list" where
  "py_slice xs i j =
     (let n = int (length xs);
          a = (if i < 0 then max 0 (n + i) else min n i);
          b = (if j < 0 then max 0 (n + j) else min n j)
      in take (nat (b - a)) (drop (nat a) xs))"

text \<open>
  The last two lines of the method: \<^verbatim>\<open>time_intervals = [[0, len(audio_array) / sr]]\<close> and
  \<^verbatim>\<open>audio_segments = [[0, len(audio_array / sr), audio_array]]\<close>. In the second one the
  division is inside \<^verbatim>\<open>len\<close>: it divides every sample and the length of that array is
  taken.
\<close>

definition whole_audio :: "audio \<Rightarrow> nat \<Rightarrow> py_error + (audio_segment list \<times> interval list)" where
  "whole_audio audio_array sr =
     (if sr = 0 then Inl ZeroDivisionError
      else Inr ([(0, real (length (map (\<lambda>x. x / real sr) audio_array)), audio_array)],
                [(0, real (length audio_array) / real sr)]))"

definition split_audio_by_intervals ::
  "audio \<Rightarrow> interval list option \<Rightarrow> nat \<Rightarrow> py_error + (audio_segment list \<times> interval list)" where
  "split_audio_by_intervals audio_array time_intervals sr =
     (case time_intervals of
        None \<Rightarrow> whole_audio audio_array sr
      | Some tis \<Rightarrow>
          if tis \<noteq> [] then
            (let time_intervals' = combine_intervals (sort_key fst tis) 0
             in Inr (map (\<lambda>time_interval.
                       (fst time_interval, snd time_interval,
                        py_slice audio_array (py_int (fst time_interval * real sr))
                                             (py_int (snd time_interval * real sr))))
                      time_intervals',
                     time_intervals'))
          else whole_audio audio_array sr)"

subsection \<open>\<^verbatim>\<open>exclude_segments_by_intervals\<close>\<close>

text \<open>
  The innermost loop: one excluded interval is cut out of every interval of
  \<^verbatim>\<open>temp_intervals\<close>.
\<close>

fun cut_excluded :: "interval \<Rightarrow> interval list \<Rightarrow> interval list" where
  "cut_excluded excluded_interval [] = []"
| "cut_excluded excluded_interval (temp_interval # temp_intervals) =
     (if snd excluded_interval \<le> fst temp_interval \<or> fst excluded_interval \<ge> snd temp_interval
      then [temp_interval]
      else (if fst temp_interval < fst excluded_interval
            then [(fst temp_interval, fst excluded_interval)] else [])
         @ (if snd temp_interval > snd excluded_interval
            then [(snd excluded_interval, snd temp_interval)] else []))
     @ cut_excluded excluded_interval temp_intervals"

definition excluded_loop :: "interval list \<Rightarrow> interval list \<Rightarrow> interval list" where
  "excluded_loop time_intervals excluded_time_intervals =
     concat (map (\<lambda>interval.
       foldl (\<lambda>temp_intervals excluded_interval. cut_excluded excluded_interval temp_intervals)
             [interval] excluded_time_intervals) time_intervals)"

fun truthy :: "'a list option \<Rightarrow> bool" where
  "truthy None = False"
| "truthy (Some xs) = (xs \<noteq> [])"

definition exclude_segments_by_intervals ::
  "audio \<Rightarrow> interval list option \<Rightarrow> interval list option \<Rightarrow> nat
     \<Rightarrow> py_error + (audio_segment list \<times> interval list)" where
  "exclude_segments_by_intervals audio_array time_intervals excluded_time_intervals sr =
     (if \<not> (truthy excluded_time_intervals \<and> truthy time_intervals)
      then split_audio_by_intervals audio_array time_intervals sr
      else split_audio_by_intervals audio_array
             (Some (excluded_loop (the time_intervals)
                      (sort_key fst (the excluded_time_intervals)))) sr)"

subsection \<open>Predicates on interval lists\<close>

text \<open>
  A time \<open>t\<close> lies strictly between the end of one interval of the list and the start of
  another, and the two are at most \<open>g\<close> apart.
\<close>

definition in_gap :: "real \<Rightarrow> interval list \<Rightarrow> real \<Rightarrow> bool" where
  "in_gap g ivs t =
     list_ex (\<lambda>a. list_ex (\<lambda>b. snd a < t \<and> t < fst b \<and> fst b - snd a \<le> g) ivs) ivs"

text \<open>The same, for the loop: the end is taken from a set of ends seen so far.\<close>

definition gap_after :: "real \<Rightarrow> real set \<Rightarrow> interval list \<Rightarrow> real \<Rightarrow> bool" where
  "gap_after g ends ivs t = (\<exists>e\<in>ends. \<exists>b\<in>set ivs. e < t \<and> t < fst b \<and> fst b - e \<le> g)"

text \<open>Two intervals share a stretch of positive duration.\<close>

definition overlaps :: "interval \<Rightarrow> interval \<Rightarrow> bool" where
  "overlaps a b = (max (fst a) (fst b) < min (snd a) (snd b))"

text \<open>An interval lies wholly before or wholly after another.\<close>

definition apart :: "interval \<Rightarrow> interval \<Rightarrow> bool" where
  "apart p ex = (snd ex \<le> fst p \<or> snd p \<le> fst ex)"

section \<open>Transcript segments\<close>

text \<open>
  A Python string is a sequence of Unicode code points, and \<^verbatim>\<open>len\<close> counts them; the
  ellipsis \<^verbatim>\<open>U+2026\<close> is one of them. So a string is a list of code points.
\<close>

type_synonym pystr = "nat list"

abbreviation (input) SPACE :: nat where "SPACE \<equiv> 32"
abbreviation (input) DOT :: nat where "DOT \<equiv> 46"
abbreviation (input) ELLIPSIS :: nat where "ELLIPSIS \<equiv> 8230"

definition ascii :: "string \<Rightarrow> pystr" where
  "ascii s = map of_char s"

text \<open>
  A word of the word-level timings is the dict \<^verbatim>\<open>{'word', 'start', 'end'}\<close>. A segment is a
  dict; \<^verbatim>\<open>start\<close> and \<^verbatim>\<open>end\<close> are always there, \<^verbatim>\<open>id\<close>, \<^verbatim>\<open>text\<close> and \<^verbatim>\<open>words\<close> may be
  missing (\<open>None\<close>), the value of \<^verbatim>\<open>text\<close> may be something else than a string, and
  \<open>seg_info\<close> holds the remaining keys (\<^verbatim>\<open>tokens\<close>, \<^verbatim>\<open>seek\<close>, \<^verbatim>\<open>temperature\<close>, ...).
\<close>

record word =
  w_word :: pystr
  w_start :: real
  w_end :: real

datatype pytext = Str pystr | NotStr

record segment =
  seg_id :: "int option"
  seg_start :: real
  seg_end :: real
  seg_text :: "pytext option"
  seg_words :: "word list option"
  seg_info :: "(string \<times> real) list"

text \<open>
  An entry of a list of segments is a segment dict or some other value: a string, a
  number or \<^verbatim>\<open>None\<close>.
\<close>

datatype pyval = PStr pystr | PNum real | PNone

datatype entry = Dict segment | NonDict pyval

subsection \<open>String methods\<close>

text \<open>
  \<^verbatim>\<open>s.find(c, start)\<close> and \<^verbatim>\<open>s.rfind(c, 0, stop)\<close> for a one-character \<open>c\<close>; \<open>None\<close> is
  the result \<open>-1\<close>.
\<close>

definition py_find :: "pystr \<Rightarrow> nat \<Rightarrow> nat \<Rightarrow> nat option" where
  "py_find s c start =
     (if c \<in> set (drop start s)
      then Some (start + length (takeWhile (\<lambda>x. x \<noteq> c) (drop start s)))
      else None)"

definition py_rfind :: "pystr \<Rightarrow> nat \<Rightarrow> nat \<Rightarrow> nat option" where
  "py_rfind s c stop =
     (if c \<in> set (take stop s)
      then Some (length (take stop s) - 1 - length (takeWhile (\<lambda>x. x \<noteq> c) (rev (take stop s))))
      else None)"

text \<open>\<^verbatim>\<open>text.replace('...', '\<dots>')\<close> (three dots by the ellipsis), from the left.\<close>

fun replace_dots :: "pystr \<Rightarrow> pystr" where
  "replace_dots (a # b # c # rest) =
     (if a = DOT \<and> b = DOT \<and> c = DOT then ELLIPSIS # replace_dots rest
      else a # replace_dots (b # c # rest))"
| "replace_dots s = s"

subsection \<open>What the two splitters share\<close>

text \<open>
  Both splitters add a space in front of a part that does not start with one; they do so
  only for a part that is not empty.
\<close>

definition lead_space :: "pystr \<Rightarrow> pystr" where
  "lead_space s = (case s of [] \<Rightarrow> [] | c # _ \<Rightarrow> if c \<noteq> SPACE then SPACE # s else s)"

text \<open>
  The loop over \<^verbatim>\<open>current_segment_words\<close>: words are taken while the characters counted so
  far plus the next word do not exceed \<open>limit\<close>, which is \<^verbatim>\<open>len(' ' + segment_first_part)\<close>.
\<close>

fun first_part_words :: "nat \<Rightarrow> nat \<Rightarrow> word list \<Rightarrow> word list" where
  "first_part_words limit n [] = []"
| "first_part_words limit n (word # words) =
     (if n + length (w_word word) > limit then []
      else word # first_part_words limit (n + length (w_word word)) words)"

text \<open>\<^verbatim>\<open>for word in words_to_remove: current_segment_words.remove(word)\<close>.\<close>

definition remove_words :: "word list \<Rightarrow> word list \<Rightarrow> word list" where
  "remove_words words_to_remove current_segment_words =
     foldl (\<lambda>ws w. remove1 w ws) current_segment_words words_to_remove"

text \<open>
  The dict \<^verbatim>\<open>new_segment\<close>: the times are those of the first and the last word of the part,
  or the times of the whole segment when the part has no words.
\<close>

definition new_segment :: "segment \<Rightarrow> pystr \<Rightarrow> word list \<Rightarrow> segment" where
  "new_segment segment part_text part_words =
     \<lparr>seg_id = None,
      seg_start = (case part_words of [] \<Rightarrow> seg_start segment | w # _ \<Rightarrow> w_start w),
      seg_end = (if part_words = [] then seg_end segment else w_end (last part_words)),
      seg_text = Some (Str (lead_space part_text)),
      seg_words = Some part_words,
      seg_info = []\<rparr>"

text \<open>
  A splitter returns either the value it was given (\<open>Unsplit\<close>) or a list of segment
  dicts (\<open>Parts\<close>).
\<close>

datatype split_result = Unsplit entry | Parts "segment list"

subsection \<open>\<^verbatim>\<open>split_segment_on_punctuation_marks\<close>\<close>

text \<open>
  The punctuation marks are one-character strings, as in the default list
  \<^verbatim>\<open>['.', '!', '?', '\<dots>']\<close> and as \<^verbatim>\<open>list(punctuation_marks)\<close> makes them.
  \<open>first_punctuation_mark_index\<close> is the \<^verbatim>\<open>min(...)\<close> over the marks that occur, and
  \<open>extend_marks\<close> is the inner \<^verbatim>\<open>while\<close> that steps over marks that follow directly.
\<close>

definition first_punctuation_mark_index :: "pystr \<Rightarrow> nat list \<Rightarrow> nat" where
  "first_punctuation_mark_index text marks =
     min_list (map (\<lambda>m. the (py_find text m 0)) (filter (\<lambda>m. m \<in> set text) marks))"

function extend_marks :: "pystr \<Rightarrow> nat list \<Rightarrow> nat \<Rightarrow> nat" where
  "extend_marks text marks i =
     (if i + 1 < length text \<and> text ! (i + 1) \<in> set marks
      then extend_marks text marks (i + 1) else i)"
  by pat_completeness auto
termination
  by (relation "measure (\<lambda>(text, marks, i). length text - i)") auto

declare extend_marks.simps [simp del]

function punctuation_loop ::
  "segment \<Rightarrow> nat list \<Rightarrow> segment list \<Rightarrow> pystr \<Rightarrow> word list \<Rightarrow> segment list" where
  "punctuation_loop segment marks resulting_segments text words =
     (if \<exists>m\<in>set marks. m \<in> set text then
        (let i = extend_marks text marks (first_punctuation_mark_index text marks);
             segment_first_part = take (i + 1) text;
             first_words = first_part_words (length (SPACE # segment_first_part)) 0 words;
             words' = remove_words first_words words;
             resulting_segments' =
               (if segment_first_part \<noteq> []
                then resulting_segments @ [new_segment segment segment_first_part first_words]
                else resulting_segments)
         in punctuation_loop segment marks resulting_segments' (drop (i + 1) text) words')
      else if text \<noteq> [] then resulting_segments @ [new_segment segment text words]
      else resulting_segments)"
  by pat_completeness auto
termination
  by (relation "measure (\<lambda>(segment, marks, resulting_segments, text, words). length text)")
    (auto dest: length_pos_if_in_set)

declare punctuation_loop.simps [simp del]

definition split_segment_on_punctuation_marks ::
  "segment \<Rightarrow> nat list \<Rightarrow> py_error + split_result" where
  "split_segment_on_punctuation_marks segment punctuation_marks =
     (case seg_words segment of
        None \<Rightarrow> Inr (Unsplit (Dict segment))
      | Some words \<Rightarrow>
          if words = [] then Inr (Unsplit (Dict segment))
          else (case seg_text segment of
                  None \<Rightarrow> Inl KeyError
                | Some NotStr \<Rightarrow> Inl AttributeError
                | Some (Str text) \<Rightarrow>
                    Inr (Parts (punctuation_loop segment punctuation_marks []
                                  (replace_dots text) words))))"

subsection \<open>\<^verbatim>\<open>split_segment_by_word_limits\<close>\<close>

text \<open>
  A limit is \<^verbatim>\<open>None\<close> or a non-negative integer; \<^verbatim>\<open>None\<close> and 0 are both false in a test.
  \<open>find_nth\<close> is the local function of that name, called with \<^verbatim>\<open>skip=True\<close>.
\<close>

fun limit_set :: "nat option \<Rightarrow> bool" where
  "limit_set None = False"
| "limit_set (Some n) = (n \<noteq> 0)"

fun find_nth_loop :: "pystr \<Rightarrow> nat \<Rightarrow> nat option \<Rightarrow> nat option" where
  "find_nth_loop haystack n None = None"
| "find_nth_loop haystack n (Some start) =
     (if n > 1 then find_nth_loop haystack (n - 1) (py_find haystack SPACE (start + 1))
      else Some start)"

definition find_nth :: "pystr \<Rightarrow> nat \<Rightarrow> nat option" where
  "find_nth haystack n = find_nth_loop haystack n (py_find haystack SPACE 1)"

text \<open>
  The index at which one pass of the loop cuts the text: \<open>Inr None\<close> is the \<^verbatim>\<open>break\<close>,
  and the word-limit branch reads \<^verbatim>\<open>current_segment_text[0]\<close> first, which raises on an
  empty text.
\<close>

definition last_space_index ::
  "pystr \<Rightarrow> nat option \<Rightarrow> nat option \<Rightarrow> py_error + nat option" where
  "last_space_index text segment_word_limit segment_character_limit =
     (if limit_set segment_character_limit then
        (case py_rfind text SPACE (the segment_character_limit) of
           Some i \<Rightarrow> Inr (Some i)
         | None \<Rightarrow> Inr (py_find text SPACE (the segment_character_limit)))
      else if text = [] then Inl IndexError
      else Inr (find_nth text (the segment_word_limit)))"

lemma last_space_index_nonempty:
  "last_space_index text segment_word_limit segment_character_limit = Inr (Some i)
   \<Longrightarrow> text \<noteq> []"
  by (auto simp: last_space_index_def py_find_def py_rfind_def split: if_splits option.splits)

function limits_loop ::
  "segment \<Rightarrow> nat option \<Rightarrow> nat option \<Rightarrow> nat \<Rightarrow> segment list \<Rightarrow> pystr \<Rightarrow> word list
     \<Rightarrow> py_error + segment list" where
  "limits_loop segment segment_word_limit segment_character_limit words_count
     resulting_segments text words =
     (if (limit_set segment_character_limit \<and> length text > the segment_character_limit)
         \<or> (limit_set segment_word_limit \<and> words_count > the segment_word_limit)
      then
        (case last_space_index text segment_word_limit segment_character_limit of
           Inl e \<Rightarrow> Inl e
         | Inr None \<Rightarrow>
             Inr (if text \<noteq> [] then resulting_segments @ [new_segment segment text words]
                  else resulting_segments)
         | Inr (Some i) \<Rightarrow>
             (let segment_first_part = take i text;
                     segment_second_part = drop (i + 1) text;
                     first_words = first_part_words (length (SPACE # segment_first_part)) 0 words;
                     words' = remove_words first_words words;
                     resulting_segments' =
                       (if segment_first_part \<noteq> []
                        then resulting_segments
                             @ [new_segment segment segment_first_part first_words]
                        else resulting_segments)
              in limits_loop segment segment_word_limit segment_character_limit words_count
                   resulting_segments' segment_second_part words'))
      else Inr (if text \<noteq> [] then resulting_segments @ [new_segment segment text words]
                else resulting_segments))"
  by pat_completeness auto
termination
  by (relation "measure (\<lambda>(segment, wl, cl, wc, resulting_segments, text, words). length text)")
    (auto dest: last_space_index_nonempty)

declare limits_loop.simps [simp del]

definition split_segment_by_word_limits ::
  "entry \<Rightarrow> nat option \<Rightarrow> nat option \<Rightarrow> py_error + split_result" where
  "split_segment_by_word_limits segment segment_word_limit segment_character_limit =
     (if \<not> limit_set segment_word_limit \<and> \<not> limit_set segment_character_limit
      then Inr (Unsplit segment)
      else (case segment of
              NonDict v \<Rightarrow> Inr (Unsplit segment)
            | Dict seg \<Rightarrow>
                (case seg_words seg of
                   None \<Rightarrow> Inr (Unsplit segment)
                 | Some words \<Rightarrow>
                     if words = [] then Inr (Unsplit segment)
                     else (case seg_text seg of
                             None \<Rightarrow> Inl KeyError
                           | Some NotStr \<Rightarrow> Inl AttributeError
                           | Some (Str text) \<Rightarrow>
                               (case limits_loop seg segment_word_limit segment_character_limit
                                       (length words) [] text words of
                                  Inl e \<Rightarrow> Inl e
                                | Inr parts \<Rightarrow> Inr (Parts parts))))))"

subsection \<open>Joining pieces of a text\<close>

text \<open>The pieces of a text that was cut at single spaces, put together again.\<close>

fun join_spaces :: "pystr list \<Rightarrow> pystr" where
  "join_spaces [] = []"
| "join_spaces [s] = s"
| "join_spaces (s # t # rest) = s @ SPACE # join_spaces (t # rest)"

text \<open>A text holds three dots in a row somewhere.\<close>

fun three_dots :: "pystr \<Rightarrow> bool" where
  "three_dots (a # b # c # rest) = ((a = DOT \<and> b = DOT \<and> c = DOT) \<or> three_dots (b # c # rest))"
| "three_dots s = False"

section \<open>Post-processing of a backend result\<close>

text \<open>
  The options read from \<^verbatim>\<open>kwargs\<close> / \<^verbatim>\<open>other_options\<close>. The two limits are what
  \<^verbatim>\<open>int(...)\<close> leaves; \<open>prevent_short_gaps\<close> is \<open>Some g\<close> when, after the conversion at the
  head of \<^verbatim>\<open>post_process_whisper_result\<close>, the value is the float \<open>g\<close>, and \<open>None\<close> when it is
  not a float; \<open>post_remove_word_timestamps\<close> is \<open>None\<close> when the key is not set.
  \<open>custom_punctuation_marks\<close> is the application setting
  \<^verbatim>\<open>transcription_custom_punctuation_marks\<close>.
\<close>

record options =
  split_on_punctuation_marks :: bool
  custom_punctuation_marks :: "nat list"
  max_words_per_segment :: "nat option"
  max_chars_per_segment :: "nat option"
  prevent_short_gaps :: "real option"
  post_remove_word_timestamps :: "bool option"
  keep_whisper_debug_info :: bool

subsection \<open>\<^verbatim>\<open>split_segments\<close>\<close>

text \<open>
  The backend returns a list of segment dicts. \<^verbatim>\<open>new_segments.extend(resulting_segment)\<close>
  adds the parts when the splitter returned a list; when it returned the dict itself,
  \<^verbatim>\<open>extend\<close> iterates over the dict and adds its keys, which are strings, and for a string
  it adds the characters. A dict keeps its keys in the order of insertion, which the record
  does not hold; \<open>seg_keys\<close> lists them in a fixed order.
\<close>

definition seg_keys :: "segment \<Rightarrow> pystr list" where
  "seg_keys seg =
     (if seg_id seg \<noteq> None then [ascii ''id''] else [])
     @ [ascii ''start'', ascii ''end'']
     @ (if seg_text seg \<noteq> None then [ascii ''text''] else [])
     @ (if seg_words seg \<noteq> None then [ascii ''words''] else [])
     @ map (\<lambda>kv. ascii (fst kv)) (seg_info seg)"

fun extend :: "entry list \<Rightarrow> split_result \<Rightarrow> py_error + entry list" where
  "extend new_segments (Parts parts) = Inr (new_segments @ map Dict parts)"
| "extend new_segments (Unsplit (Dict seg)) =
     Inr (new_segments @ map (\<lambda>k. NonDict (PStr k)) (seg_keys seg))"
| "extend new_segments (Unsplit (NonDict (PStr s))) =
     Inr (new_segments @ map (\<lambda>c. NonDict (PStr [c])) s)"
| "extend new_segments (Unsplit (NonDict v)) = Inl TypeError"

fun split_all_on_punctuation ::
  "nat list \<Rightarrow> entry list \<Rightarrow> segment list \<Rightarrow> py_error + entry list" where
  "split_all_on_punctuation marks new_segments [] = Inr new_segments"
| "split_all_on_punctuation marks new_segments (segment # segments) =
     (case split_segment_on_punctuation_marks segment marks of
        Inl e \<Rightarrow> Inl e
      | Inr resulting_segment \<Rightarrow>
          (case extend new_segments resulting_segment of
             Inl e \<Rightarrow> Inl e
           | Inr new_segments' \<Rightarrow> split_all_on_punctuation marks new_segments' segments))"

fun split_all_by_limits ::
  "nat option \<Rightarrow> nat option \<Rightarrow> entry list \<Rightarrow> entry list \<Rightarrow> py_error + entry list" where
  "split_all_by_limits wl cl new_segments [] = Inr new_segments"
| "split_all_by_limits wl cl new_segments (segment # segments) =
     (case split_segment_by_word_limits segment wl cl of
        Inl e \<Rightarrow> Inl e
      | Inr resulting_segment \<Rightarrow>
          (case extend new_segments resulting_segment of
             Inl e \<Rightarrow> Inl e
           | Inr new_segments' \<Rightarrow> split_all_by_limits wl cl new_segments' segments))"

definition split_segments :: "options \<Rightarrow> segment list \<Rightarrow> py_error + entry list" where
  "split_segments opts segments =
     (case segments of
        [] \<Rightarrow> Inr []
      | first # _ \<Rightarrow>
          if seg_words first = None then Inr (map Dict segments)
          else
            (case (if split_on_punctuation_marks opts
                   then split_all_on_punctuation (custom_punctuation_marks opts) [] segments
                   else Inr (map Dict segments)) of
               Inl e \<Rightarrow> Inl e
             | Inr segments' \<Rightarrow>
                 if max_chars_per_segment opts \<noteq> None \<or> max_words_per_segment opts \<noteq> None
                 then split_all_by_limits (max_words_per_segment opts)
                        (max_chars_per_segment opts) [] segments'
                 else Inr segments'))"

subsection \<open>The loop over the segments\<close>

text \<open>
  The second half of \<^verbatim>\<open>post_process_whisper_result\<close>. The loop
  \<^verbatim>\<open>for n, segment in enumerate(result['segments'])\<close> walks the list by position while the
  body removes entries from that same list: \<open>n\<close> is the position of the iterator and
  \<open>segments\<close> the list as it is now; \<^verbatim>\<open>list.remove\<close> deletes the first entry equal to its
  argument. Segments that are kept are changed in place (their words deleted, their end
  moved), but a kept segment has a non-empty text and an entry that is removed has none, so
  the changes never decide which entry \<^verbatim>\<open>remove\<close> finds, and the list is modelled with its
  entries as they came in.
\<close>

definition valid_text :: "segment \<Rightarrow> bool" where
  "valid_text segment = (case seg_text segment of Some (Str t) \<Rightarrow> t \<noteq> [] | _ \<Rightarrow> False)"

definition remove_word_timestamps :: "bool \<Rightarrow> segment \<Rightarrow> segment" where
  "remove_word_timestamps rm segment =
     (if seg_words segment \<noteq> None \<and> rm then segment\<lparr>seg_words := None\<rparr> else segment)"

text \<open>
  The gap filling: \<^verbatim>\<open>new_result_segments[-2]['end'] = segment['start']\<close>. The previous end
  is set only after a segment was appended, so the list holds at least two segments here.
\<close>

definition fill_gap ::
  "real option \<Rightarrow> real option \<Rightarrow> segment \<Rightarrow> segment list \<Rightarrow> segment list" where
  "fill_gap previous_segment_end_time gap segment new_result_segments =
     (case previous_segment_end_time of
        None \<Rightarrow> new_result_segments
      | Some previous_end \<Rightarrow>
          (case gap of
             None \<Rightarrow> new_result_segments
           | Some g \<Rightarrow>
               if seg_start segment - previous_end < g
               then new_result_segments
                      [length new_result_segments - 2 :=
                         (new_result_segments ! (length new_result_segments - 2))
                           \<lparr>seg_end := seg_start segment\<rparr>]
               else new_result_segments))"

function segments_loop ::
  "real option \<Rightarrow> bool \<Rightarrow> nat \<Rightarrow> entry list \<Rightarrow> segment list \<Rightarrow> real option \<Rightarrow> segment list"
  where
  "segments_loop gap rm n segments new_result_segments previous_segment_end_time =
     (if n < length segments then
        (case segments ! n of
           NonDict v \<Rightarrow>
             segments_loop gap rm (n + 1) (remove1 (segments ! n) segments)
               new_result_segments previous_segment_end_time
         | Dict segment \<Rightarrow>
             if \<not> valid_text segment
             then segments_loop gap rm (n + 1) (remove1 (segments ! n) segments)
                    new_result_segments previous_segment_end_time
             else
               (let segment' = remove_word_timestamps rm segment;
                    new_result_segments' =
                      fill_gap previous_segment_end_time gap segment'
                        (new_result_segments @ [segment'])
                in segments_loop gap rm (n + 1) segments new_result_segments'
                     (Some (seg_end segment'))))
      else new_result_segments)"
  by pat_completeness auto
termination
  by (relation "measure (\<lambda>(gap, rm, n, segments, new, prev). length segments - n)")
    (auto simp: length_remove1)

declare segments_loop.simps [simp del]

text \<open>
  A result of the backend is \<^verbatim>\<open>None\<close> or a dict with the keys \<^verbatim>\<open>segments\<close>, \<^verbatim>\<open>language\<close>
  and \<^verbatim>\<open>status\<close>, each of which may be missing. After post-processing the segments are
  dicts again.
\<close>

record whisper_result =
  res_segments :: "segment list option"
  res_language :: "pystr option"
  res_status :: "string option"

definition post_process_whisper_result ::
  "options \<Rightarrow> whisper_result option \<Rightarrow> py_error + whisper_result option" where
  "post_process_whisper_result opts result =
     (case result of
        None \<Rightarrow> Inr None
      | Some r \<Rightarrow>
          (case res_segments r of
             None \<Rightarrow> Inr result
           | Some segments \<Rightarrow>
               (case split_segments opts segments of
                  Inl e \<Rightarrow> Inl e
                | Inr segments' \<Rightarrow>
                    Inr (Some (r\<lparr>res_segments :=
                      Some (segments_loop (prevent_short_gaps opts)
                              (case post_remove_word_timestamps opts of
                                 None \<Rightarrow> False | Some b \<Rightarrow> b)
                              0 segments' [] None)\<rparr>)))))"

subsection \<open>Auxiliary functions for the loop over the segments\<close>



text \<open>The body of the loop for entries that are all kept.\<close>

fun keep_all ::
  "real option \<Rightarrow> bool \<Rightarrow> entry list \<Rightarrow> segment list \<Rightarrow> real option \<Rightarrow> segment list" where
  "keep_all gap rm [] new_result_segments previous_segment_end_time = new_result_segments"
| "keep_all gap rm (NonDict v # rest) new_result_segments previous_segment_end_time =
     keep_all gap rm rest new_result_segments previous_segment_end_time"
| "keep_all gap rm (Dict segment # rest) new_result_segments previous_segment_end_time =
     keep_all gap rm rest
       (fill_gap previous_segment_end_time gap (remove_word_timestamps rm segment)
          (new_result_segments @ [remove_word_timestamps rm segment]))
       (Some (seg_end (remove_word_timestamps rm segment)))"

text \<open>
  What gap filling with threshold \<open>g\<close> makes of a list of segments: the end of a segment
  moves to the start of the next one when that start is less than \<open>g\<close> after the end.
\<close>

fun extend_ends :: "real \<Rightarrow> segment list \<Rightarrow> segment list" where
  "extend_ends g [] = []"
| "extend_ends g [a] = [a]"
| "extend_ends g (a # b # rest) =
     a\<lparr>seg_end := (if seg_start b - seg_end a < g then seg_start b else seg_end a)\<rparr>
     # extend_ends g (b # rest)"


section \<open>Stitching the windows of a transcription\<close>

subsection \<open>The transcription store and the queue item\<close>

text \<open>
  Modelled from the spec: the transcription store (class \<^verbatim>\<open>Transcription\<close> of the module
  \<^verbatim>\<open>transcription\<close>, which is not among the sources). The spec lists its operations as
  \<^verbatim>\<open>add_segments(list)\<close>, \<^verbatim>\<open>delete_segments_between(start,end,predicate?)\<close>,
  \<^verbatim>\<open>save(deferred:bool)\<close> and \<^verbatim>\<open>generate_new_id()\<close>. The store holds the segments in memory
  (\<open>t_segments\<close>) and what was last written to the file (\<open>t_saved\<close>); deleting removes the
  stored segments whose span overlaps \<open>[start, end)\<close>; a new id continues from the largest
  id in the store.
\<close>

record transcription =
  t_segments :: "segment list"
  t_saved :: "segment list"
  t_incomplete :: bool

definition delete_segments_between :: "real \<Rightarrow> real \<Rightarrow> transcription \<Rightarrow> transcription" where
  "delete_segments_between start end t =
     t\<lparr>t_segments := filter (\<lambda>s. \<not> (seg_start s < end \<and> start < seg_end s)) (t_segments t)\<rparr>"

definition add_segments :: "segment list \<Rightarrow> transcription \<Rightarrow> transcription" where
  "add_segments segments t = t\<lparr>t_segments := t_segments t @ segments\<rparr>"

definition save_soon :: "transcription \<Rightarrow> transcription" where
  "save_soon t = t\<lparr>t_saved := t_segments t\<rparr>"

definition stored_ids :: "transcription \<Rightarrow> int list" where
  "stored_ids t = concat (map (\<lambda>s. case seg_id s of None \<Rightarrow> [] | Some i \<Rightarrow> [i]) (t_segments t))"

definition generate_new_segment_id :: "transcription \<Rightarrow> int" where
  "generate_new_segment_id t = (if stored_ids t = [] then 0 else Max (set (stored_ids t)) + 1)"

text \<open>
  Modelled from the spec: the item of the processing queue (class \<^verbatim>\<open>ProcessingQueue\<close>, not
  among the sources) that belongs to \<^verbatim>\<open>queue_id\<close>. \<^verbatim>\<open>update(item_id, **fields)\<close> merges the
  fields into the stored item; cancelling is requested by a flag set against the item's
  id, and \<^verbatim>\<open>cancel_if_canceled\<close> returns true and marks the item \<^verbatim>\<open>canceled\<close> if cancellation
  was requested. The progress \<^verbatim>\<open>''\<close> is \<open>None\<close>. The record may be extended: whatever else a
  backend reads and writes is in the extension.
\<close>

record queue_item =
  q_status :: string
  q_progress :: "nat option"
  q_fail_error :: "string option"
  q_cancel_requested :: bool
  q_transcription_file_path :: "string option"

definition cancel_if_canceled :: "'x queue_item_scheme \<Rightarrow> bool \<times> 'x queue_item_scheme" where
  "cancel_if_canceled item =
     (if q_cancel_requested item then (True, item\<lparr>q_status := ''canceled''\<rparr>) else (False, item))"

subsection \<open>Offsetting the segments of one window\<close>

text \<open>
  The keys that are deleted from a segment unless \<^verbatim>\<open>keep_whisper_debug_info\<close> is set.
\<close>

definition debug_keys :: "string list" where
  "debug_keys = [''tokens'', ''seek'', ''temperature'', ''avg_logprob'', ''compression_ratio'',
                 ''no_speech_prob'']"

text \<open>
  The window's start is added to both times, then the end is cut at the window's end and
  the start at the window's start; the same for every word of the segment.
\<close>

definition offset_word :: "real \<Rightarrow> real \<Rightarrow> word \<Rightarrow> word" where
  "offset_word audio_segment_start audio_segment_end word =
     word\<lparr>w_start := (if w_start word + audio_segment_start < audio_segment_start
                       then audio_segment_start else w_start word + audio_segment_start),
          w_end := (if w_end word + audio_segment_start > audio_segment_end
                     then audio_segment_end else w_end word + audio_segment_start)\<rparr>"

definition offset_segment :: "options \<Rightarrow> real \<Rightarrow> real \<Rightarrow> int \<Rightarrow> segment \<Rightarrow> segment" where
  "offset_segment other_options audio_segment_start audio_segment_end new_id transcript_segment =
     \<lparr>seg_id = Some new_id,
      seg_start = (if seg_start transcript_segment + audio_segment_start < audio_segment_start
                   then audio_segment_start
                   else seg_start transcript_segment + audio_segment_start),
      seg_end = (if seg_end transcript_segment + audio_segment_start > audio_segment_end
                 then audio_segment_end
                 else seg_end transcript_segment + audio_segment_start),
      seg_text = seg_text transcript_segment,
      seg_words = map_option (map (offset_word audio_segment_start audio_segment_end))
                    (seg_words transcript_segment),
      seg_info = (if keep_whisper_debug_info other_options then seg_info transcript_segment
                  else filter (\<lambda>kv. fst kv \<notin> set debug_keys) (seg_info transcript_segment))\<rparr>"

text \<open>
  The loop \<^verbatim>\<open>for i, transcript_segment in enumerate(result['segments'])\<close>: the id of a
  segment is \<^verbatim>\<open>next_segment_id + id_count\<close>, and \<^verbatim>\<open>id_count\<close> goes up by one with every
  segment. The value is \<^verbatim>\<open>current_segment_batch\<close>. The segments of a result are taken to be
  different objects, as the post-processing leaves them.
\<close>

fun offset_segments ::
  "options \<Rightarrow> real \<Rightarrow> real \<Rightarrow> int \<Rightarrow> nat \<Rightarrow> segment list \<Rightarrow> segment list" where
  "offset_segments other_options audio_segment_start audio_segment_end next_segment_id id_count [] = []"
| "offset_segments other_options audio_segment_start audio_segment_end next_segment_id id_count
     (transcript_segment # segments) =
     offset_segment other_options audio_segment_start audio_segment_end
       (next_segment_id + int id_count) transcript_segment
     # offset_segments other_options audio_segment_start audio_segment_end next_segment_id
         (id_count + 1) segments"

subsection \<open>\<^verbatim>\<open>whisper_transcribe_segments\<close>\<close>

text \<open>
  The dict \<^verbatim>\<open>results\<close>; \<^verbatim>\<open>whisper_language\<close> and \<^verbatim>\<open>status\<close> are \<open>None\<close> while the key is not
  set.
\<close>

record results =
  r_segments :: "segment list"
  r_whisper_language :: "pystr option"
  r_status :: "string option"

text \<open>
  What the loop over the windows carries along: the queue item (with whatever else the
  backend keeps), the transcription object if there is one, \<^verbatim>\<open>results\<close>, the last
  \<^verbatim>\<open>result\<close>, \<^verbatim>\<open>id_count\<close> and \<^verbatim>\<open>other_options\<close>, in which the loop sets
  \<^verbatim>\<open>post_remove_word_timestamps\<close>.
\<close>

record 'x stitch =
  st_item :: "'x queue_item_scheme"
  st_transcription :: "transcription option"
  st_results :: results
  st_result :: "whisper_result option"
  st_id_count :: nat
  st_options :: options

text \<open>
  The backend \<^verbatim>\<open>self.whisper_model.transcribe\<close> is not among the sources: it is a parameter.
  It is called with the samples of the window, the total duration, the duration of the
  window and the progress so far, which \<^verbatim>\<open>transcription_progress\<close> reads from the queue item;
  it is also given \<^verbatim>\<open>queue_id\<close> and the object itself, so it reads and writes the queue
  item. It returns \<^verbatim>\<open>None\<close> or a dict.
\<close>

type_synonym 'x backend =
  "'x queue_item_scheme \<Rightarrow> real \<Rightarrow> audio_segment \<Rightarrow> whisper_result option \<times> 'x queue_item_scheme"

text \<open>
  \<^verbatim>\<open>result['segments']\<close> where the test
  \<^verbatim>\<open>isinstance(result, dict) and 'segments' in result and result['segments']\<close> holds, and the
  empty list where it does not.
\<close>

definition result_segments :: "whisper_result option \<Rightarrow> segment list" where
  "result_segments result =
     (case result of
        None \<Rightarrow> []
      | Some r \<Rightarrow> (case res_segments r of None \<Rightarrow> [] | Some segments \<Rightarrow> segments))"

text \<open>
  One window. \<^verbatim>\<open>pre_process_audio_segment\<close> returns the window as it is. The stored
  segments of the window are deleted before the backend is called; an exception of the
  post-processing leaves the loop with the state as it is then.
\<close>

definition transcribe_window ::
  "'x backend \<Rightarrow> real \<Rightarrow> int \<Rightarrow> audio_segment \<Rightarrow> 'x stitch \<Rightarrow> (py_error \<times> 'x stitch) + 'x stitch"
  where
  "transcribe_window backend total_dur next_segment_id audio_segment st =
     (case audio_segment of (audio_segment_start, audio_segment_end, audio) \<Rightarrow>
        (let transcription =
               map_option (delete_segments_between audio_segment_start audio_segment_end)
                 (st_transcription st);
             (result, item) = backend (st_item st) total_dur audio_segment;
             other_options = (st_options st)
               \<lparr>post_remove_word_timestamps :=
                  Some (case post_remove_word_timestamps (st_options st) of
                          None \<Rightarrow> True | Some b \<Rightarrow> b)\<rparr>;
             st' = st\<lparr>st_item := item, st_transcription := transcription,
                      st_result := result, st_options := other_options\<rparr>
         in case post_process_whisper_result other_options result of
              Inl e \<Rightarrow> Inl (e, st')
            | Inr result' \<Rightarrow>
                (let segments = result_segments result';
                     current_segment_batch =
                       offset_segments other_options audio_segment_start audio_segment_end
                         next_segment_id (st_id_count st) segments;
                     results' =
                       (if segments = [] then st_results st
                        else (st_results st)
                          \<lparr>r_segments := r_segments (st_results st) @ current_segment_batch,
                           r_whisper_language :=
                             Some (case res_language (the result') of
                                     None \<Rightarrow> [] | Some l \<Rightarrow> l)\<rparr>);
                     transcription' =
                       map_option
                         (\<lambda>t. save_soon (if segments = [] then t
                                          else add_segments current_segment_batch t))
                         transcription
                 in Inr (st'\<lparr>st_transcription := transcription',
                            st_results := results',
                            st_result := result',
                            st_id_count := st_id_count st + length segments\<rparr>))))"

text \<open>
  An entry of \<^verbatim>\<open>audio_segments\<close> is a window \<^verbatim>\<open>[start, end, audio]\<close>, or something that does
  not have three elements: then \<open>Other\<close> holds its two first elements, if it has two.
\<close>

datatype window = Window audio_segment | Other "(real \<times> real) option"

text \<open>
  \<^verbatim>\<open>total_duration\<close> is the sum of \<^verbatim>\<open>audio_segment[1] - audio_segment[0]\<close> over all entries,
  taken before the loop; an entry with fewer than two elements raises \<^verbatim>\<open>IndexError\<close> there.
\<close>

fun duration :: "window \<Rightarrow> py_error + real" where
  "duration (Window (audio_segment_start, audio_segment_end, audio)) =
     Inr (audio_segment_end - audio_segment_start)"
| "duration (Other (Some (a, b))) = Inr (b - a)"
| "duration (Other None) = Inl IndexError"

fun total_duration :: "window list \<Rightarrow> py_error + real" where
  "total_duration [] = Inr 0"
| "total_duration (audio_segment # audio_segments) =
     (case duration audio_segment of
        Inl e \<Rightarrow> Inl e
      | Inr d \<Rightarrow>
          (case total_duration audio_segments of
             Inl e \<Rightarrow> Inl e
           | Inr total_dur \<Rightarrow> Inr (d + total_dur)))"

text \<open>
  The loop \<^verbatim>\<open>for audio_segment in audio_segments\<close>. It passes over an entry that does not
  have three elements.
\<close>

fun transcribe_loop ::
  "'x backend \<Rightarrow> real \<Rightarrow> int \<Rightarrow> window list \<Rightarrow> 'x stitch
     \<Rightarrow> (py_error \<times> 'x stitch) + 'x stitch" where
  "transcribe_loop backend total_dur next_segment_id [] st = Inr st"
| "transcribe_loop backend total_dur next_segment_id (Other x # audio_segments) st =
     transcribe_loop backend total_dur next_segment_id audio_segments st"
| "transcribe_loop backend total_dur next_segment_id (Window audio_segment # audio_segments) st =
     (case transcribe_window backend total_dur next_segment_id audio_segment st of
        Inl e \<Rightarrow> Inl e
      | Inr st' \<Rightarrow> transcribe_loop backend total_dur next_segment_id audio_segments st')"

text \<open>
  \<^verbatim>\<open>next_segment_id\<close> is 0 without a transcription object and a new id of the store with
  one.
\<close>

definition next_id :: "transcription option \<Rightarrow> int" where
  "next_id transcription =
     (case transcription of None \<Rightarrow> 0 | Some t \<Rightarrow> generate_new_segment_id t)"

definition initial_stitch ::
  "options \<Rightarrow> transcription option \<Rightarrow> 'x queue_item_scheme \<Rightarrow> 'x stitch" where
  "initial_stitch other_options transcription item =
     \<lparr>st_item = item, st_transcription = transcription,
      st_results = \<lparr>r_segments = [], r_whisper_language = None, r_status = None\<rparr>,
      st_result = None, st_id_count = 0, st_options = other_options\<rparr>"

text \<open>
  After the loop the status of the last result, if it has one, is copied to \<^verbatim>\<open>results\<close>.
\<close>

definition copy_status :: "'x stitch \<Rightarrow> 'x stitch" where
  "copy_status st =
     (case st_result st of
        None \<Rightarrow> st
      | Some r \<Rightarrow>
          (case res_status r of
             None \<Rightarrow> st
           | Some status \<Rightarrow> st\<lparr>st_results := (st_results st)\<lparr>r_status := Some status\<rparr>\<rparr>))"

definition whisper_transcribe_segments ::
  "'x backend \<Rightarrow> window list \<Rightarrow> options \<Rightarrow> transcription option
     \<Rightarrow> 'x queue_item_scheme \<Rightarrow> (py_error \<times> 'x stitch) + 'x stitch" where
  "whisper_transcribe_segments backend audio_segments other_options transcription item =
     (case total_duration audio_segments of
        Inl e \<Rightarrow> Inl (e, initial_stitch other_options transcription item)
      | Inr total_dur \<Rightarrow>
          (case transcribe_loop backend total_dur (next_id transcription) audio_segments
                  (initial_stitch other_options transcription item) of
             Inl e \<Rightarrow> Inl e
           | Inr st \<Rightarrow> Inr (copy_status st)))"

subsection \<open>The end of \<^verbatim>\<open>whisper_transcribe\<close>\<close>

text \<open>
  \<^verbatim>\<open>whisper_transcribe\<close> from \<^verbatim>\<open>result = None\<close> on, with the windows, the transcription object
  and the queue item as they are then. An exception of the stitcher is caught and the item
  is marked \<^verbatim>\<open>failed\<close>; a result with the status \<^verbatim>\<open>failed\<close> or \<^verbatim>\<open>canceled\<close> has its status
  copied to the item, and the function returns \<^verbatim>\<open>None\<close>. Otherwise the transcription is
  marked complete and saved, the queue is asked once whether the item was cancelled, and
  the item is marked \<^verbatim>\<open>done\<close>. \<^verbatim>\<open>process_transcription_metadata\<close> and the auxiliaries touch
  neither the segments nor the item. The value is what is returned (\<open>False\<close> for \<^verbatim>\<open>None\<close>,
  \<open>True\<close> for \<^verbatim>\<open>True\<close> or the path), the transcription and the item.
\<close>

definition whisper_transcribe ::
  "'x backend \<Rightarrow> window list \<Rightarrow> options \<Rightarrow> string \<Rightarrow> transcription
     \<Rightarrow> 'x queue_item_scheme \<Rightarrow> bool \<times> transcription option \<times> 'x queue_item_scheme" where
  "whisper_transcribe backend audio_segments other_options transcription_file_path
     transcription item =
     (case whisper_transcribe_segments backend audio_segments other_options
             (Some transcription) item of
        Inl (e, st) \<Rightarrow>
          (False, st_transcription st,
           (st_item st)\<lparr>q_status := ''failed'', q_progress := None,
                        q_fail_error := Some ''See app.log for possible details.''\<rparr>)
      | Inr st \<Rightarrow>
          if r_status (st_results st) = Some ''failed''
             \<or> r_status (st_results st) = Some ''canceled''
          then
            (False, st_transcription st,
             (st_item st)\<lparr>q_status := the (r_status (st_results st)), q_progress := None,
                          q_fail_error :=
                            (if r_status (st_results st) = Some ''failed''
                             then Some ''See app.log for possible details.'' else None)\<rparr>)
          else
            (let item' = (st_item st)\<lparr>q_status := ''saving files'', q_progress := None\<rparr>;
                 transcription' =
                   map_option (\<lambda>t. save_soon (t\<lparr>t_incomplete := False\<rparr>)) (st_transcription st);
                 (canceled, item'') = cancel_if_canceled item'
             in if canceled then (False, transcription', item'')
                else (True, transcription',
                      item''\<lparr>q_status := ''done'', q_progress := None,
                             q_transcription_file_path := Some transcription_file_path\<rparr>)))"

subsection \<open>Notions for the statements about cancelling\<close>

text \<open>
  A result of the backend that reports a cancelled transcription: a dict with the status
  \<^verbatim>\<open>canceled\<close> and no segments.
\<close>

definition canceled_result :: "whisper_result option \<Rightarrow> bool" where
  "canceled_result result =
     (case result of
        None \<Rightarrow> False
      | Some r \<Rightarrow>
          res_status r = Some ''canceled'' \<and> (res_segments r = None \<or> res_segments r = Some []))"

text \<open>
  The store after the stored segments of every window of a list were deleted and the
  store was saved.
\<close>

fun delete_windows :: "window list \<Rightarrow> transcription \<Rightarrow> transcription" where
  "delete_windows [] t = save_soon t"
| "delete_windows (Window (audio_segment_start, audio_segment_end, audio) # audio_segments) t =
     delete_windows audio_segments (delete_segments_between audio_segment_start audio_segment_end t)"
| "delete_windows (Other x # audio_segments) t = delete_windows audio_segments t"

text \<open>
  What the loop keeps about the ids: \<^verbatim>\<open>id_count\<close> is the number of segments in \<^verbatim>\<open>results\<close>,
  and they have the ids from \<open>n\<close> on.
\<close>

definition ids_ok :: "int \<Rightarrow> 'x stitch \<Rightarrow> bool" where
  "ids_ok n st \<longleftrightarrow>
     st_id_count st = length (r_segments (st_results st))
     \<and> map seg_id (r_segments (st_results st))
         = map (\<lambda>i. Some (n + int i)) [0..<length (r_segments (st_results st))]"

section \<open>Example values\<close>

text \<open>Segments and lists used where a statement is checked on a concrete input.\<close>

definition seg_a :: segment where
  "seg_a = \<lparr>seg_id = None, seg_start = 0, seg_end = 2, seg_text = Some (Str (ascii ''a'')),
            seg_words = None, seg_info = []\<rparr>"

definition seg_b :: segment where
  "seg_b = \<lparr>seg_id = None, seg_start = 5 / 2, seg_end = 4, seg_text = Some (Str (ascii ''b'')),
            seg_words = None, seg_info = []\<rparr>"



definition no_options :: options where
  "no_options = \<lparr>split_on_punctuation_marks = False, custom_punctuation_marks = [46, 33, 63, 8230],
                 max_words_per_segment = None, max_chars_per_segment = None,
                 prevent_short_gaps = None, post_remove_word_timestamps = None,
                 keep_whisper_debug_info = False\<rparr>"

definition seg_hello :: segment where
  "seg_hello = \<lparr>seg_id = Some 0, seg_start = 0, seg_end = 5,
      seg_text = Some (Str (ascii ''Hello world. How are you?'')),
      seg_words = Some [\<lparr>w_word = ascii ''Hello'', w_start = 0, w_end = 1\<rparr>,
                        \<lparr>w_word = ascii '' world.'', w_start = 1, w_end = 2\<rparr>,
                        \<lparr>w_word = ascii '' How'', w_start = 2, w_end = 3\<rparr>,
                        \<lparr>w_word = ascii '' are'', w_start = 3, w_end = 4\<rparr>,
                        \<lparr>w_word = ascii '' you?'', w_start = 4, w_end = 5\<rparr>],
      seg_info = []\<rparr>"

definition seg_dots :: segment where
  "seg_dots = \<lparr>seg_id = Some 0, seg_start = 0, seg_end = 2,
      seg_text = Some (Str (ascii '' Wait... what?'')),
      seg_words = Some [\<lparr>w_word = ascii '' Wait...'', w_start = 0, w_end = 1\<rparr>,
                        \<lparr>w_word = ascii '' what?'', w_start = 1, w_end = 2\<rparr>],
      seg_info = []\<rparr>"

definition seg_two_words :: segment where
  "seg_two_words = \<lparr>seg_id = Some 0, seg_start = 0, seg_end = 2,
      seg_text = Some (Str (ascii '' Hello world'')),
      seg_words = Some [\<lparr>w_word = ascii '' Hello'', w_start = 0, w_end = 1\<rparr>,
                        \<lparr>w_word = ascii '' world'', w_start = 1, w_end = 2\<rparr>],
      seg_info = []\<rparr>"

subsection \<open>A run of the stitcher\<close>

text \<open>
  Two backends for the examples. The first returns the same two segments for every window
  and never looks at the queue item. During the first call of the second one the
  cancellation is requested: it still returns the two segments of that window, and from
  then on it reports the cancellation.
\<close>

definition two_segments :: whisper_result where
  "two_segments = \<lparr>res_segments = Some [seg_a, seg_b], res_language = Some (ascii ''en''),
                    res_status = None\<rparr>"

definition canceled :: whisper_result where
  "canceled = \<lparr>res_segments = None, res_language = None, res_status = Some ''canceled''\<rparr>"

definition deaf_backend :: "unit backend" where
  "deaf_backend item total_dur audio_segment = (Some two_segments, item)"

definition canceled_in_first_call :: "unit backend" where
  "canceled_in_first_call item total_dur audio_segment =
     (if q_cancel_requested item then (Some canceled, item)
      else (Some two_segments, item\<lparr>q_cancel_requested := True\<rparr>))"

definition three_windows :: "window list" where
  "three_windows = [Window (0, 5, []), Window (10, 15, []), Window (20, 25, [])]"

definition transcribing :: queue_item where
  "transcribing = \<lparr>q_status = ''transcribing'', q_progress = None, q_fail_error = None,
                    q_cancel_requested = False, q_transcription_file_path = None\<rparr>"

definition empty_store :: transcription where
  "empty_store = \<lparr>t_segments = [], t_saved = [], t_incomplete = True\<rparr>"

definition old_store :: transcription where
  "old_store = \<lparr>t_segments = [seg_a\<lparr>seg_id := Some 3\<rparr>,
                                 seg_b\<lparr>seg_id := Some 7, seg_start := 30, seg_end := 31\<rparr>],
                 t_saved = [], t_incomplete = True\<rparr>"

section \<open>Properties of the interval algebra\<close>


lemma combine_loop_acc:
  "combine_loop g new cur xs = new @ combine_loop g [] cur xs"
proof (induction xs arbitrary: new cur)
  case Nil
  show ?case by simp
next
  case (Cons iv rest)
  show ?case
  proof (cases "fst iv - snd cur \<le> g")
    case True
    then show ?thesis using Cons.IH [of new "(fst cur, snd iv)"] by simp
  next
    case False
    then show ?thesis
      using Cons.IH [of "new @ [cur]" iv] Cons.IH [of "[cur]" iv] by simp
  qed
qed

lemma combine_loop_single:
  "combine_loop g [a] cur xs = a # combine_loop g [] cur xs"
  using combine_loop_acc [of g "[a]" cur xs] by simp





lemma covered_Cons: "covered (iv # ivs) t = ((fst iv \<le> t \<and> t \<le> snd iv) \<or> covered ivs t)"
  by (simp add: covered_def)

lemma covered_iff: "covered ivs t = (\<exists>iv\<in>set ivs. fst iv \<le> t \<and> t \<le> snd iv)"
  by (simp add: covered_def list_ex_iff)

lemma combine_loop_no_gain:
  "covered (combine_loop g [] cur rest) t \<Longrightarrow>
   covered (cur # rest) t \<or> gap_after g (insert (snd cur) (snd ` set rest)) rest t"
proof (induction rest arbitrary: cur)
  case Nil
  then show ?case by simp
next
  case (Cons iv rest)
  show ?case
  proof (cases "fst iv - snd cur \<le> g")
    case True
    with Cons.prems have "covered (combine_loop g [] (fst cur, snd iv) rest) t" by simp
    from Cons.IH [OF this]
    have "covered ((fst cur, snd iv) # rest) t \<or> gap_after g (insert (snd iv) (snd ` set rest)) rest t"
      by simp
    then show ?thesis
    proof
      assume c: "covered ((fst cur, snd iv) # rest) t"
      show ?thesis
      proof (cases "covered rest t")
        case True
        then show ?thesis by (simp add: covered_Cons)
      next
        case False
        with c have r: "fst cur \<le> t" "t \<le> snd iv" by (simp_all add: covered_Cons)
        show ?thesis
        proof (cases "t \<le> snd cur")
          case True
          with r show ?thesis by (simp add: covered_Cons)
        next
          case nle: False
          show ?thesis
          proof (cases "fst iv \<le> t")
            case True
            with r show ?thesis by (simp add: covered_Cons)
          next
            case False
            with nle \<open>fst iv - snd cur \<le> g\<close>
            have "gap_after g (insert (snd cur) (snd ` set (iv # rest))) (iv # rest) t"
              unfolding gap_after_def by force
            then show ?thesis by simp
          qed
        qed
      qed
    next
      assume "gap_after g (insert (snd iv) (snd ` set rest)) rest t"
      then have "gap_after g (insert (snd cur) (snd ` set (iv # rest))) (iv # rest) t"
        unfolding gap_after_def by auto
      then show ?thesis by simp
    qed
  next
    case False
    with Cons.prems have "covered (cur # combine_loop g [] iv rest) t"
      by (simp add: combine_loop_single)
    then have "(fst cur \<le> t \<and> t \<le> snd cur) \<or> covered (combine_loop g [] iv rest) t"
      by (simp add: covered_Cons)
    then show ?thesis
    proof
      assume "fst cur \<le> t \<and> t \<le> snd cur"
      then show ?thesis by (simp add: covered_Cons)
    next
      assume "covered (combine_loop g [] iv rest) t"
      from Cons.IH [OF this]
      have "covered (iv # rest) t \<or> gap_after g (insert (snd iv) (snd ` set rest)) rest t" .
      then show ?thesis
      proof
        assume "covered (iv # rest) t"
        then show ?thesis by (simp add: covered_Cons)
      next
        assume "gap_after g (insert (snd iv) (snd ` set rest)) rest t"
        then have "gap_after g (insert (snd cur) (snd ` set (iv # rest))) (iv # rest) t"
          unfolding gap_after_def by auto
        then show ?thesis by simp
      qed
    qed
  qed
qed




lemma in_gap_iff:
  "in_gap g ivs t = (\<exists>a\<in>set ivs. \<exists>b\<in>set ivs. snd a < t \<and> t < fst b \<and> fst b - snd a \<le> g)"
  by (simp add: in_gap_def list_ex_iff)

lemma combine_intervals_eq:
  "combine_intervals ivs g =
     (case sort_key fst ivs of [] \<Rightarrow> [] | cur # rest \<Rightarrow> combine_loop g [] cur rest)"
  by (cases ivs) (simp_all add: combine_intervals_def)

lemma sort_key_fst_cases:
  obtains "ivs = []" "combine_intervals ivs g = []"
  | cur rest where "sort_key fst ivs = cur # rest" "combine_intervals ivs g = combine_loop g [] cur rest"
    "set (cur # rest) = set ivs" "sorted (map fst (cur # rest))"
proof (cases "sort_key fst ivs")
  case Nil
  then have "ivs = []" by (metis length_sort list.size(3) length_0_conv)
  then show ?thesis using that(1) by (simp add: combine_intervals_def)
next
  case (Cons cur rest)
  have "set (cur # rest) = set ivs" using Cons by (metis set_sort)
  moreover have "sorted (map fst (cur # rest))" using Cons by (metis sorted_sort_key)
  ultimately show ?thesis using that(2) Cons by (simp add: combine_intervals_eq)
qed

lemma combine_intervals_no_gain:
  assumes "covered (combine_intervals ivs g) t"
  shows "covered ivs t \<or> in_gap g ivs t"
proof (cases ivs g rule: sort_key_fst_cases)
  case 1
  with assms show ?thesis by (simp add: covered_def)
next
  case (2 cur rest)
  with assms have "covered (combine_loop g [] cur rest) t" by simp
  from combine_loop_no_gain [OF this]
  have "covered (cur # rest) t \<or> gap_after g (insert (snd cur) (snd ` set rest)) rest t" .
  then show ?thesis
  proof
    assume "covered (cur # rest) t"
    then show ?thesis using 2(3) by (auto simp: covered_iff)
  next
    assume "gap_after g (insert (snd cur) (snd ` set rest)) rest t"
    then obtain e b where eb: "e \<in> insert (snd cur) (snd ` set rest)" "b \<in> set rest"
      "e < t" "t < fst b" "fst b - e \<le> g"
      unfolding gap_after_def by blast
    from eb(1) have "e \<in> snd ` set (cur # rest)" by simp
    then obtain a where "a \<in> set (cur # rest)" "snd a = e" by blast
    with eb 2(3) have "\<exists>a\<in>set ivs. \<exists>b\<in>set ivs. snd a < t \<and> t < fst b \<and> fst b - snd a \<le> g"
      by (metis list.set_intros(2))
    then show ?thesis by (simp add: in_gap_iff)
  qed
qed



text \<open>
  When an interval ends before the one it is merged into, the merged end is the later
  interval's end, not the larger of the two.
\<close>

lemma combine_intervals_nested_loss:
  "combine_intervals [(0, 10), (1, 2)] 0 = [(0, 2)]"
  by (simp add: combine_intervals_def)




lemma cut_excluded_piece:
  "p \<in> set (cut_excluded ex temps) \<Longrightarrow>
   \<exists>t\<in>set temps. fst t \<le> fst p \<and> snd p \<le> snd t \<and> apart p ex"
proof (induction temps)
  case Nil
  then show ?case by simp
next
  case (Cons t temps)
  from Cons.prems have "p \<in> set (cut_excluded ex [t]) \<or> p \<in> set (cut_excluded ex temps)"
    by auto
  then show ?case
  proof
    assume "p \<in> set (cut_excluded ex [t])"
    then have "fst t \<le> fst p \<and> snd p \<le> snd t \<and> apart p ex"
      by (auto simp: apart_def split: if_splits)
    then show ?thesis by auto
  next
    assume "p \<in> set (cut_excluded ex temps)"
    from Cons.IH [OF this] show ?thesis by auto
  qed
qed

lemma cut_all_excluded_piece:
  "p \<in> set (foldl (\<lambda>temp_intervals excluded_interval.
                      cut_excluded excluded_interval temp_intervals) temps exs) \<Longrightarrow>
   (\<exists>t\<in>set temps. fst t \<le> fst p \<and> snd p \<le> snd t) \<and> (\<forall>ex\<in>set exs. apart p ex)"
proof (induction exs arbitrary: temps)
  case Nil
  then show ?case by auto
next
  case (Cons ex exs)
  from Cons.prems have
    "p \<in> set (foldl (\<lambda>temp_intervals excluded_interval.
                      cut_excluded excluded_interval temp_intervals) (cut_excluded ex temps) exs)"
    by simp
  from Cons.IH [OF this] obtain q where q: "q \<in> set (cut_excluded ex temps)"
    "fst q \<le> fst p" "snd p \<le> snd q" and rest: "\<forall>ex\<in>set exs. apart p ex" by blast
  from cut_excluded_piece [OF q(1)] obtain t where t: "t \<in> set temps"
    "fst t \<le> fst q" "snd q \<le> snd t" "apart q ex" by blast
  have "apart p ex" using t(4) q(2,3) unfolding apart_def by linarith
  moreover have "fst t \<le> fst p \<and> snd p \<le> snd t" using t(2,3) q(2,3) by linarith
  ultimately show ?case using t(1) rest by auto
qed

lemma excluded_loop_apart:
  "p \<in> set (excluded_loop tis exs) \<Longrightarrow> ex \<in> set exs \<Longrightarrow> apart p ex"
  unfolding excluded_loop_def using cut_all_excluded_piece by fastforce

lemma covered_sort_key: "covered (sort_key f ivs) t = covered ivs t"
  by (simp add: covered_iff)

lemma combine_zero_inside:
  "covered (combine_intervals ivs 0) t \<Longrightarrow> covered ivs t"
  using combine_intervals_no_gain [of ivs 0 t] by (auto simp: in_gap_iff)

lemma overlaps_point:
  assumes "overlaps iv ex"
  obtains t where "fst iv \<le> t" "t \<le> snd iv" "fst ex < t" "t < snd ex"
proof -
  define lo where "lo = max (fst iv) (fst ex)"
  define hi where "hi = min (snd iv) (snd ex)"
  from assms have lt: "lo < hi" by (simp add: overlaps_def lo_def hi_def)
  have b: "fst iv \<le> lo" "fst ex \<le> lo" "hi \<le> snd iv" "hi \<le> snd ex"
    by (simp_all add: lo_def hi_def)
  have m1: "lo < (lo + hi) / 2" using lt by simp
  have m2: "(lo + hi) / 2 < hi" using lt by simp
  have "fst iv \<le> (lo + hi) / 2" using b(1) m1 by simp
  moreover have "(lo + hi) / 2 \<le> snd iv" using b(3) m2 by simp
  moreover have "fst ex < (lo + hi) / 2" using b(2) m1 by simp
  moreover have "(lo + hi) / 2 < snd ex" using b(4) m2 by simp
  ultimately show ?thesis using that by blast
qed

lemma split_audio_nonempty:
  "tis \<noteq> [] \<Longrightarrow> split_audio_by_intervals audio (Some tis) sr =
     Inr (map (\<lambda>time_interval.
                (fst time_interval, snd time_interval,
                 py_slice audio (py_int (fst time_interval * real sr))
                                (py_int (snd time_interval * real sr))))
              (combine_intervals (sort_key fst tis) 0),
          combine_intervals (sort_key fst tis) 0)"
  by (simp add: split_audio_by_intervals_def Let_def)

lemma combine_loop_separated_id:
  "sorted_wrt (\<lambda>a b. snd a < fst b) (cur # rest) \<Longrightarrow> combine_loop 0 [] cur rest = cur # rest"
proof (induction rest arbitrary: cur)
  case Nil
  then show ?case by simp
next
  case (Cons iv rest)
  then have "\<not> fst iv - snd cur \<le> 0" by simp
  moreover have "sorted_wrt (\<lambda>a b. snd a < fst b) (iv # rest)" using Cons.prems by simp
  ultimately show ?case using Cons.IH by (simp add: combine_loop_single)
qed

lemma normalise_separated_id:
  assumes "\<forall>iv\<in>set tis. fst iv \<le> snd iv" and "sorted_wrt (\<lambda>a b. snd a < fst b) tis"
  shows "combine_intervals (sort_key fst tis) 0 = tis"
proof -
  have "sorted_wrt (\<lambda>a b. fst a \<le> fst b) tis"
    using sorted_wrt_mono_rel [OF _ assms(2), of "\<lambda>a b. fst a \<le> fst b"] assms(1) by fastforce
  then have "sorted (map fst tis)" by (simp add: sorted_map)
  then have s: "sort_key fst tis = tis" by (rule sort_key_id_if_sorted)
  show ?thesis
  proof (cases tis)
    case Nil
    then show ?thesis by (simp add: combine_intervals_def)
  next
    case (Cons cur rest)
    with assms(2) have "combine_loop 0 [] cur rest = cur # rest"
      using combine_loop_separated_id by blast
    with s Cons show ?thesis by (simp add: combine_intervals_eq)
  qed
qed

text \<open>
  Claim C7, as amended. When the kept list is not empty and the exclusion leaves at least
  one interval, \<^verbatim>\<open>exclude_segments_by_intervals\<close> returns, and no returned interval shares
  a stretch of positive duration with an excluded interval. With an empty exclusion list
  it returns what \<^verbatim>\<open>split_audio_by_intervals\<close> returns for the kept list: for a non-empty
  kept list, the list sorted by start and merged by \<^verbatim>\<open>combine_intervals\<close> with gap 0,
  which is the kept list itself when its intervals have \<open>start \<le> end\<close> and each ends
  before the next starts.
\<close>

theorem exclude_segments_no_overlap:
  "(tis \<noteq> [] \<and> excluded_loop tis (sort_key fst exs) \<noteq> [] \<longrightarrow>
      (\<exists>segs out. exclude_segments_by_intervals audio (Some tis) (Some exs) sr = Inr (segs, out)
         \<and> (\<forall>iv\<in>set out. \<forall>ex\<in>set exs. \<not> overlaps iv ex)))
   \<and> exclude_segments_by_intervals audio (Some tis) (Some []) sr
        = split_audio_by_intervals audio (Some tis) sr
   \<and> (tis \<noteq> [] \<longrightarrow>
        (\<exists>segs. exclude_segments_by_intervals audio (Some tis) (Some []) sr
                  = Inr (segs, combine_intervals (sort_key fst tis) 0)))
   \<and> (tis \<noteq> [] \<and> (\<forall>iv\<in>set tis. fst iv \<le> snd iv) \<and> sorted_wrt (\<lambda>a b. snd a < fst b) tis \<longrightarrow>
        (\<exists>segs. exclude_segments_by_intervals audio (Some tis) (Some []) sr = Inr (segs, tis)))"
proof (intro conjI impI)
  assume h: "tis \<noteq> [] \<and> excluded_loop tis (sort_key fst exs) \<noteq> []"
  let ?new = "excluded_loop tis (sort_key fst exs)"
  let ?out = "combine_intervals (sort_key fst ?new) 0"
  show "\<exists>segs out. exclude_segments_by_intervals audio (Some tis) (Some exs) sr = Inr (segs, out)
         \<and> (\<forall>iv\<in>set out. \<forall>ex\<in>set exs. \<not> overlaps iv ex)"
  proof (cases "exs = []")
    case True
    with h split_audio_nonempty [of tis audio sr] show ?thesis
      by (simp add: exclude_segments_by_intervals_def)
  next
    case False
    with h have eq: "exclude_segments_by_intervals audio (Some tis) (Some exs) sr
        = split_audio_by_intervals audio (Some ?new) sr"
      by (simp add: exclude_segments_by_intervals_def)
    have no: "\<forall>iv\<in>set ?out. \<forall>ex\<in>set exs. \<not> overlaps iv ex"
    proof (intro ballI notI)
      fix iv ex
      assume iv: "iv \<in> set ?out" and ex: "ex \<in> set exs" and ov: "overlaps iv ex"
      from ov obtain t where t: "fst iv \<le> t" "t \<le> snd iv" "fst ex < t" "t < snd ex"
        by (rule overlaps_point)
      from iv t(1,2) have "covered ?out t" by (auto simp: covered_iff)
      then have "covered ?new t" using combine_zero_inside covered_sort_key by blast
      then obtain p where p: "p \<in> set ?new" "fst p \<le> t" "t \<le> snd p"
        by (auto simp: covered_iff)
      from ex have "ex \<in> set (sort_key fst exs)" by simp
      from excluded_loop_apart [OF p(1) this] have "apart p ex" .
      with p(2,3) t(3,4) show False unfolding apart_def by linarith
    qed
    from h have "?new \<noteq> []" by simp
    from split_audio_nonempty [OF this] eq no show ?thesis by simp
  qed
next
  show "exclude_segments_by_intervals audio (Some tis) (Some []) sr
        = split_audio_by_intervals audio (Some tis) sr"
    by (simp add: exclude_segments_by_intervals_def)
next
  assume "tis \<noteq> []"
  from split_audio_nonempty [OF this]
  show "\<exists>segs. exclude_segments_by_intervals audio (Some tis) (Some []) sr
                  = Inr (segs, combine_intervals (sort_key fst tis) 0)"
    by (simp add: exclude_segments_by_intervals_def)
next
  assume h: "tis \<noteq> [] \<and> (\<forall>iv\<in>set tis. fst iv \<le> snd iv) \<and> sorted_wrt (\<lambda>a b. snd a < fst b) tis"
  then have "combine_intervals (sort_key fst tis) 0 = tis"
    using normalise_separated_id by blast
  with h split_audio_nonempty [of tis audio sr]
  show "\<exists>segs. exclude_segments_by_intervals audio (Some tis) (Some []) sr = Inr (segs, tis)"
    by (simp add: exclude_segments_by_intervals_def)
qed

text \<open>
  The claim as first stated says that an empty exclusion list returns the kept intervals
  unchanged. A kept list that is not in start order comes back sorted.
\<close>

theorem exclude_segments_empty_exclusion_reorders:
  "exclude_segments_by_intervals [] (Some [(5, 6), (0, 1)]) (Some []) 16000
     = Inr ([(0, 1, []), (5, 6, [])], [(0, 1), (5, 6)])
   \<and> [(0, 1), (5, 6)] \<noteq> [(5, 6), (0, 1::real)]"
  by (simp add: exclude_segments_by_intervals_def split_audio_by_intervals_def
      combine_intervals_def py_slice_def)

text \<open>
  When every kept interval is excluded, the list handed to \<^verbatim>\<open>split_audio_by_intervals\<close>
  is empty, and that method then answers with the whole audio.
\<close>

lemma exclude_everything:
  "exclude_segments_by_intervals [1, 2, 3, 4] (Some [(0, 1)]) (Some [(0, 1)]) 2
     = Inr ([(0, 4, [1, 2, 3, 4])], [(0, 2)])"
  by (simp add: exclude_segments_by_intervals_def split_audio_by_intervals_def whole_audio_def
      excluded_loop_def)

theorem exclude_segments_no_overlap_witness:
  "[(0::real, 10::real)] \<noteq> []
   \<and> excluded_loop [(0, 10)] (sort_key fst [(2, 3)]) = [(0, 2), (3, 10)]
   \<and> exclude_segments_by_intervals [] (Some [(0, 10)]) (Some [(2, 3)]) 1
        = Inr ([(0, 2, []), (3, 10, [])], [(0, 2), (3, 10)])
   \<and> \<not> overlaps (0, 2) (2, 3) \<and> \<not> overlaps (3, 10) (2, 3)
   \<and> list_all (\<lambda>iv. fst iv \<le> snd iv) [(0::real, 2::real), (3, 10)]
   \<and> sorted_wrt (\<lambda>a b. snd a < fst b) [(0::real, 2::real), (3, 10)]
   \<and> exclude_segments_by_intervals [] (Some [(0, 2), (3, 10)]) (Some []) 1
        = Inr ([(0, 2, []), (3, 10, [])], [(0, 2), (3, 10)])"
proof -
  have l: "excluded_loop [(0, 10)] (sort_key fst [(2, 3)]) = [(0, 2), (3, 10)]"
    by (simp add: excluded_loop_def)
  have v: "exclude_segments_by_intervals [] (Some [(0, 10)]) (Some [(2, 3)]) 1
        = Inr ([(0, 2, []), (3, 10, [])], [(0, 2), (3, 10)])"
    by (simp add: exclude_segments_by_intervals_def split_audio_by_intervals_def
        combine_intervals_def py_slice_def excluded_loop_def)
  have "\<forall>iv\<in>set [(0::real, 2::real), (3, 10)]. \<forall>ex\<in>set [(2::real, 3::real)]. \<not> overlaps iv ex"
    using exclude_segments_no_overlap [of "[(0, 10)]" "[(2, 3)]" "[]" 1] l v by simp
  then have o: "\<not> overlaps (0, 2) (2, 3) \<and> \<not> overlaps (3, 10) (2, 3)" by simp
  have u: "exclude_segments_by_intervals [] (Some [(0, 2), (3, 10)]) (Some []) 1
        = Inr ([(0, 2, []), (3, 10, [])], [(0, 2), (3, 10)])"
    by (simp add: exclude_segments_by_intervals_def split_audio_by_intervals_def
        combine_intervals_def py_slice_def)
  from l v o u show ?thesis by simp
qed


text \<open>
  Claim C6, as amended. With an absent second argument
  \<^verbatim>\<open>combine_overlapping_intervals\<close> returns the first list sorted by start (stable), which is
  the first list itself when it is already in start order; with both arguments absent it
  returns \<^verbatim>\<open>None\<close>; with an empty second list it returns the empty list.
\<close>

theorem combine_overlapping_intervals_absent:
  "combine_overlapping_intervals (PyList ivs) PyNone = Some (sort_key fst ivs)
   \<and> (sorted (map fst ivs) \<longrightarrow> combine_overlapping_intervals (PyList ivs) PyNone = Some ivs)
   \<and> combine_overlapping_intervals PyNone PyNone = None
   \<and> combine_overlapping_intervals (PyList ivs) (PyList []) = Some []"
  by (simp add: combine_overlapping_intervals_def intersecting_intervals_def
      sort_key_id_if_sorted)

theorem combine_overlapping_intervals_absent_witness:
  "sorted (map fst [(0::real, 1::real), (5, 6)])
   \<and> combine_overlapping_intervals (PyList [(0, 1), (5, 6)]) PyNone = Some [(0, 1), (5, 6)]"
proof -
  have h: "sorted (map fst [(0::real, 1::real), (5, 6)])" by simp
  with combine_overlapping_intervals_absent [of "[(0, 1), (5, 6)]"] show ?thesis by blast
qed

text \<open>
  The claim as first stated says that the first list is returned unchanged. A list that is
  not in start order comes back sorted.
\<close>

theorem combine_overlapping_intervals_absent_sorts:
  "combine_overlapping_intervals (PyList [(5, 6), (0, 1)]) PyNone \<noteq> Some [(5, 6), (0, 1)]"
  by (simp add: combine_overlapping_intervals_def)

text \<open>
  Claim C5. With no interval list, the one window returned for 32000 samples at 16000
  samples per second has end 32000, the number of samples, while the interval returned
  beside it has end 2, the duration in seconds.
\<close>

theorem split_audio_whole_window_end:
  "split_audio_by_intervals (replicate 32000 0) None 16000
     = Inr ([(0, 32000, replicate 32000 0)], [(0, 2)])"
  by (simp add: split_audio_by_intervals_def whole_audio_def)

text \<open>The same for every audio array and every non-zero sample rate, absent or empty list.\<close>

lemma split_audio_whole_window:
  "0 < sr \<Longrightarrow> tis = None \<or> tis = Some [] \<Longrightarrow>
   split_audio_by_intervals audio_array tis sr
     = Inr ([(0, real (length audio_array), audio_array)],
            [(0, real (length audio_array) / real sr)])"
  by (auto simp: split_audio_by_intervals_def whole_audio_def)

section \<open>Properties of the loop over the segments\<close>






lemma keep_all_valid_Dict:
  "keep_all gap rm (Dict segment # rest) new prev =
     keep_all gap rm rest
       (fill_gap prev gap (remove_word_timestamps rm segment)
          (new @ [remove_word_timestamps rm segment]))
       (Some (seg_end (remove_word_timestamps rm segment)))"
  by simp










lemma extend_ends_length: "length (extend_ends g xs) = length xs"
  by (induction g xs rule: extend_ends.induct) simp_all

lemma extend_ends_Nil_iff: "extend_ends g xs = [] \<longleftrightarrow> xs = []"
  using extend_ends_length [of g xs] by (metis length_0_conv)

lemma extend_ends_last: "xs \<noteq> [] \<Longrightarrow> last (extend_ends g xs) = last xs"
  by (induction g xs rule: extend_ends.induct) (simp_all add: extend_ends_Nil_iff)

lemma fill_gap_snoc:
  "new \<noteq> [] \<Longrightarrow>
   fill_gap (Some (seg_end (last new))) (Some g) s (extend_ends g new @ [s])
     = extend_ends g (new @ [s])"
proof (induction g new rule: extend_ends.induct)
  case (3 g a b rest)
  let ?a = "a\<lparr>seg_end := (if seg_start b - seg_end a < g then seg_start b else seg_end a)\<rparr>"
  let ?ys = "extend_ends g (b # rest) @ [s]"
  have len: "length ?ys = Suc (Suc (length rest))" by (simp add: extend_ends_length)
  have ih: "fill_gap (Some (seg_end (last (b # rest)))) (Some g) s ?ys
              = extend_ends g ((b # rest) @ [s])"
    using "3.IH" by simp
  have upd: "(?a # ?ys)[length (?a # ?ys) - 2 := v] = ?a # ?ys[length ?ys - 2 := v]" for v
    using len by simp
  have nth: "(?a # ?ys) ! (length (?a # ?ys) - 2) = ?ys ! (length ?ys - 2)"
    using len by simp
  have "fill_gap (Some (seg_end (last (a # b # rest)))) (Some g) s (extend_ends g (a # b # rest) @ [s])
        = ?a # fill_gap (Some (seg_end (last (b # rest)))) (Some g) s ?ys"
    unfolding fill_gap_def using upd nth by simp
  then show ?case using ih by simp
next
  case (1 g)
  then show ?case by simp
next
  case (2 g a)
  then show ?case by (simp add: fill_gap_def)
qed

lemma keep_all_extend_ends:
  "(new = [] \<and> prev = None) \<or> (new \<noteq> [] \<and> prev = Some (seg_end (last new))) \<Longrightarrow>
   keep_all (Some g) rm es (extend_ends g new) prev = extend_ends g (keep_all None rm es new prev)"
proof (induction es arbitrary: new prev)
  case Nil
  then show ?case by simp
next
  case (Cons e es)
  show ?case
  proof (cases e)
    case (NonDict v)
    with Cons show ?thesis by simp
  next
    case (Dict segment)
    let ?s = "remove_word_timestamps rm segment"
    have plain: "fill_gap prev None ?s (new @ [?s]) = new @ [?s]"
      by (simp add: fill_gap_def split: option.splits)
    have filled: "fill_gap prev (Some g) ?s (extend_ends g new @ [?s]) = extend_ends g (new @ [?s])"
    proof (cases "new = []")
      case True
      with Cons.prems show ?thesis by (simp add: fill_gap_def)
    next
      case False
      with Cons.prems have "prev = Some (seg_end (last new))" by simp
      with fill_gap_snoc [OF False] show ?thesis by simp
    qed
    have inv: "(new @ [?s] = [] \<and> Some (seg_end ?s) = None)
               \<or> (new @ [?s] \<noteq> [] \<and> Some (seg_end ?s) = Some (seg_end (last (new @ [?s]))))"
      by simp
    show ?thesis using Cons.IH [OF inv] Dict plain filled by simp
  qed
qed












section \<open>Properties of the two splitters\<close>



lemma seg_text_new_segment: "seg_text (new_segment seg p ws) = Some (Str (lead_space p))"
  by (simp add: new_segment_def)

lemma punctuation_loop_texts:
  "\<exists>slices. map seg_text (punctuation_loop seg marks rs tx ws)
             = map seg_text rs @ map (\<lambda>s. Some (Str (lead_space s))) slices
           \<and> [] \<notin> set slices \<and> concat slices = tx"
proof (induction seg marks rs tx ws rule: punctuation_loop.induct)
  case (1 seg marks rs tx ws)
  show ?case
  proof (cases "\<exists>m\<in>set marks. m \<in> set tx")
    case False
    show ?thesis
    proof (cases "tx = []")
      case True
      with False have "punctuation_loop seg marks rs tx ws = rs"
        by (subst punctuation_loop.simps) simp
      with True show ?thesis by (intro exI [of _ "[]"]) simp
    next
      case ne: False
      with False have "punctuation_loop seg marks rs tx ws = rs @ [new_segment seg tx ws]"
        by (subst punctuation_loop.simps) simp
      with ne show ?thesis by (intro exI [of _ "[tx]"]) (simp add: seg_text_new_segment)
    qed
  next
    case True
    then have ne: "tx \<noteq> []" by auto
    define i where "i = extend_marks tx marks (first_punctuation_mark_index tx marks)"
    define fw where "fw = first_part_words (length (SPACE # take (i + 1) tx)) 0 ws"
    define rs' where "rs' = rs @ [new_segment seg (take (i + 1) tx) fw]"
    have fp: "take (i + 1) tx \<noteq> []" using ne by simp
    have step: "punctuation_loop seg marks rs tx ws
                  = punctuation_loop seg marks rs' (drop (i + 1) tx) (remove_words fw ws)"
      using True fp by (subst punctuation_loop.simps) (simp add: Let_def i_def fw_def rs'_def)
    have "\<exists>slices. map seg_text (punctuation_loop seg marks rs' (drop (i + 1) tx) (remove_words fw ws))
             = map seg_text rs' @ map (\<lambda>s. Some (Str (lead_space s))) slices
           \<and> [] \<notin> set slices \<and> concat slices = drop (i + 1) tx"
      using "1.IH" [OF True i_def refl fw_def refl] fp by (simp add: rs'_def)
    then obtain slices where s:
      "map seg_text (punctuation_loop seg marks rs' (drop (i + 1) tx) (remove_words fw ws))
             = map seg_text rs' @ map (\<lambda>s. Some (Str (lead_space s))) slices"
      "[] \<notin> set slices" "concat slices = drop (i + 1) tx" by blast
    show ?thesis
      using s fp step
      by (intro exI [of _ "take (i + 1) tx # slices"]) (simp add: rs'_def seg_text_new_segment)
  qed
qed



lemma takeWhile_neq_less:
  "c \<in> set xs \<Longrightarrow> length (takeWhile (\<lambda>x. x \<noteq> c) xs) < length xs"
  by (induction xs) auto

lemma takeWhile_neq_nth:
  "c \<in> set xs \<Longrightarrow> xs ! length (takeWhile (\<lambda>x. x \<noteq> c) xs) = c"
  by (induction xs) auto

lemma py_find_Some:
  assumes "py_find s c start = Some i"
  shows "i < length s \<and> s ! i = c"
proof -
  from assms have m: "c \<in> set (drop start s)"
    and i: "i = start + length (takeWhile (\<lambda>x. x \<noteq> c) (drop start s))"
    by (auto simp: py_find_def split: if_splits)
  let ?k = "length (takeWhile (\<lambda>x. x \<noteq> c) (drop start s))"
  have k: "?k < length (drop start s)" using takeWhile_neq_less [OF m] .
  have "drop start s ! ?k = c" using takeWhile_neq_nth [OF m] .
  moreover have "start + ?k < length s" using k by simp
  ultimately show ?thesis using i by (simp add: add.commute)
qed

lemma py_rfind_Some:
  assumes "py_rfind s c stop = Some i"
  shows "i < length s \<and> s ! i = c"
proof -
  let ?p = "take stop s"
  let ?k = "length (takeWhile (\<lambda>x. x \<noteq> c) (rev ?p))"
  from assms have m: "c \<in> set ?p" and i: "i = length ?p - 1 - ?k"
    by (auto simp: py_rfind_def split: if_splits)
  from m have m': "c \<in> set (rev ?p)" by simp
  have k: "?k < length ?p" using takeWhile_neq_less [OF m'] by simp
  have "rev ?p ! ?k = c" using takeWhile_neq_nth [OF m'] .
  then have "?p ! (length ?p - Suc ?k) = c" using k by (simp add: rev_nth)
  moreover have il: "i < length ?p" using i k by linarith
  moreover have "length ?p - Suc ?k = i" using i by linarith
  ultimately have "?p ! i = c" by simp
  moreover have "?p ! i = s ! i" using il by simp
  ultimately show ?thesis using il by simp
qed

lemma find_nth_loop_Some:
  "find_nth_loop s n start = Some i \<Longrightarrow>
   (\<forall>j. start = Some j \<longrightarrow> j < length s \<and> s ! j = SPACE) \<Longrightarrow>
   i < length s \<and> s ! i = SPACE"
proof (induction s n start rule: find_nth_loop.induct)
  case (1 haystack n)
  then show ?case by simp
next
  case (2 haystack n start)
  show ?case
  proof (cases "n > 1")
    case True
    with "2.prems"(1) have
      "find_nth_loop haystack (n - 1) (py_find haystack SPACE (start + 1)) = Some i"
      by simp
    from "2.IH" [OF True this] show ?thesis using py_find_Some by blast
  next
    case False
    with "2.prems" show ?thesis by simp
  qed
qed

lemma last_space_index_Some:
  assumes "last_space_index tx wl cl = Inr (Some i)"
  shows "i < length tx \<and> tx ! i = SPACE"
proof (cases "limit_set cl")
  case True
  with assms show ?thesis
    using py_find_Some py_rfind_Some
    by (auto simp: last_space_index_def split: option.splits)
next
  case False
  with assms have "find_nth tx (the wl) = Some i"
    by (auto simp: last_space_index_def split: if_splits)
  then show ?thesis
    unfolding find_nth_def using find_nth_loop_Some py_find_Some by blast
qed

lemma cut_at_space:
  "i < length tx \<Longrightarrow> tx ! i = SPACE \<Longrightarrow> take i tx @ SPACE # drop (i + 1) tx = tx"
  by (metis Suc_eq_plus1 id_take_nth_drop)

lemma join_spaces_Cons: "rest \<noteq> [] \<Longrightarrow> join_spaces (s # rest) = s @ SPACE # join_spaces rest"
  by (cases rest) simp_all

lemma limits_loop_texts:
  "limits_loop seg wl cl wc rs tx ws = Inr parts \<Longrightarrow>
   \<exists>slices. slices \<noteq> [] \<and> join_spaces slices = tx
     \<and> map seg_text parts
         = map seg_text rs @ map (\<lambda>s. Some (Str (lead_space s))) (filter (\<lambda>s. s \<noteq> []) slices)"
proof (induction seg wl cl wc rs tx ws arbitrary: parts rule: limits_loop.induct)
  case (1 seg wl cl wc rs tx ws)
  have base: ?case if "parts = (if tx \<noteq> [] then rs @ [new_segment seg tx ws] else rs)"
    using that by (intro exI [of _ "[tx]"]) (simp add: seg_text_new_segment)
  show ?case
  proof (cases "(limit_set cl \<and> length tx > the cl) \<or> (limit_set wl \<and> wc > the wl)")
    case False
    with "1.prems" have "parts = (if tx \<noteq> [] then rs @ [new_segment seg tx ws] else rs)"
      by (subst (asm) limits_loop.simps) auto
    then show ?thesis by (rule base)
  next
    case True
    show ?thesis
    proof (cases "last_space_index tx wl cl")
      case (Inl e)
      with True "1.prems" show ?thesis by (subst (asm) limits_loop.simps) simp
    next
      case (Inr r)
      show ?thesis
      proof (cases r)
        case None
        with True Inr "1.prems"
        have "parts = (if tx \<noteq> [] then rs @ [new_segment seg tx ws] else rs)"
          by (subst (asm) limits_loop.simps) auto
        then show ?thesis by (rule base)
      next
        case (Some i)
        define fw where "fw = first_part_words (length (SPACE # take i tx)) 0 ws"
        define rs' where "rs' = (if take i tx \<noteq> [] then rs @ [new_segment seg (take i tx) fw]
                                  else rs)"
        have lsi: "last_space_index tx wl cl = Inr (Some i)" using Inr Some by simp
        have unf: "limits_loop seg wl cl wc rs tx ws
                     = limits_loop seg wl cl wc rs' (drop (i + 1) tx) (remove_words fw ws)"
          by (subst limits_loop.simps)
            (simp only: True lsi if_True sum.case option.case Let_def fw_def rs'_def)
        have step: "limits_loop seg wl cl wc rs' (drop (i + 1) tx) (remove_words fw ws) = Inr parts"
          using unf "1.prems" by simp
        note ih = "1.IH" [OF True lsi refl refl refl refl refl refl
                           step [unfolded rs'_def fw_def]]
        have "\<exists>slices. slices \<noteq> [] \<and> join_spaces slices = drop (i + 1) tx
           \<and> map seg_text parts
               = map seg_text rs' @ map (\<lambda>s. Some (Str (lead_space s)))
                                       (filter (\<lambda>s. s \<noteq> []) slices)"
          using ih unfolding rs'_def fw_def .
        then obtain slices where s: "slices \<noteq> []" "join_spaces slices = drop (i + 1) tx"
          "map seg_text parts
               = map seg_text rs' @ map (\<lambda>s. Some (Str (lead_space s)))
                                       (filter (\<lambda>s. s \<noteq> []) slices)" by blast
        have cut: "take i tx @ SPACE # drop (i + 1) tx = tx"
          using last_space_index_Some [OF lsi] cut_at_space by blast
        have j: "join_spaces (take i tx # slices) = tx"
          using s(1,2) cut by (simp add: join_spaces_Cons)
        show ?thesis
          using s(3) j
          by (intro exI [of _ "take i tx # slices"]) (simp add: rs'_def seg_text_new_segment)
      qed
    qed
  qed
qed


lemma replace_dots_id: "\<not> three_dots tx \<Longrightarrow> replace_dots tx = tx"
  by (induction tx rule: replace_dots.induct) auto






text \<open>
  Claim C4, as amended. Take a segment with a non-empty word list and a string as text.
  The punctuation split returns parts whose texts are non-empty pieces, each with a
  leading space put in front when it had none, and the pieces concatenated are the text
  with every \<^verbatim>\<open>...\<close> replaced by the ellipsis character, which is the text itself when it
  holds no three dots in a row. When the limit split returns parts, their texts are the
  non-empty ones among pieces, again with the leading space put in front, and the pieces
  joined by single spaces are the text: the space at which the text is cut belongs to no
  piece.
\<close>

theorem split_texts_reconstruct:
  "seg_words seg = Some ws \<Longrightarrow> ws \<noteq> [] \<Longrightarrow> seg_text seg = Some (Str tx) \<Longrightarrow>
   (\<exists>parts slices.
       split_segment_on_punctuation_marks seg marks = Inr (Parts parts)
       \<and> map seg_text parts = map (\<lambda>s. Some (Str (lead_space s))) slices
       \<and> [] \<notin> set slices
       \<and> concat slices = replace_dots tx
       \<and> (\<not> three_dots tx \<longrightarrow> concat slices = tx))
   \<and> (\<forall>parts. split_segment_by_word_limits (Dict seg) wl cl = Inr (Parts parts) \<longrightarrow>
         (\<exists>slices.
            map seg_text parts
              = map (\<lambda>s. Some (Str (lead_space s))) (filter (\<lambda>s. s \<noteq> []) slices)
            \<and> join_spaces slices = tx))"
proof (intro conjI allI impI)
  assume a: "seg_words seg = Some ws" "ws \<noteq> []" "seg_text seg = Some (Str tx)"
  from punctuation_loop_texts [of seg marks "[]" "replace_dots tx" ws]
  obtain slices where s:
    "map seg_text (punctuation_loop seg marks [] (replace_dots tx) ws)
       = map (\<lambda>s. Some (Str (lead_space s))) slices"
    "[] \<notin> set slices" "concat slices = replace_dots tx" by auto
  have e: "split_segment_on_punctuation_marks seg marks
             = Inr (Parts (punctuation_loop seg marks [] (replace_dots tx) ws))"
    using a by (simp add: split_segment_on_punctuation_marks_def)
  have "\<not> three_dots tx \<longrightarrow> concat slices = tx" using s(3) replace_dots_id by simp
  with e s show "\<exists>parts slices.
       split_segment_on_punctuation_marks seg marks = Inr (Parts parts)
       \<and> map seg_text parts = map (\<lambda>s. Some (Str (lead_space s))) slices
       \<and> [] \<notin> set slices
       \<and> concat slices = replace_dots tx
       \<and> (\<not> three_dots tx \<longrightarrow> concat slices = tx)"
    by blast
next
  fix parts
  assume a: "seg_words seg = Some ws" "ws \<noteq> []" "seg_text seg = Some (Str tx)"
    and r: "split_segment_by_word_limits (Dict seg) wl cl = Inr (Parts parts)"
  from r a have "limits_loop seg wl cl (length ws) [] tx ws = Inr parts"
    by (auto simp: split_segment_by_word_limits_def split: if_splits sum.splits)
  from limits_loop_texts [OF this]
  show "\<exists>slices.
            map seg_text parts
              = map (\<lambda>s. Some (Str (lead_space s))) (filter (\<lambda>s. s \<noteq> []) slices)
            \<and> join_spaces slices = tx"
    by auto
qed



theorem split_texts_reconstruct_witness:
  "seg_words seg_hello \<noteq> Some []
   \<and> seg_text seg_hello = Some (Str (ascii ''Hello world. How are you?''))
   \<and> (\<exists>parts slices.
         split_segment_on_punctuation_marks seg_hello [46, 33, 63, 8230] = Inr (Parts parts)
         \<and> map seg_text parts = map (\<lambda>s. Some (Str (lead_space s))) slices
         \<and> concat slices = ascii ''Hello world. How are you?'')"
proof -
  obtain ws where w: "seg_words seg_hello = Some ws" "ws \<noteq> []"
    by (simp add: seg_hello_def)
  have t: "seg_text seg_hello = Some (Str (ascii ''Hello world. How are you?''))"
    by (simp add: seg_hello_def)
  have d: "\<not> three_dots (ascii ''Hello world. How are you?'')"
    by (simp add: ascii_def)
  from split_texts_reconstruct [OF w t, of "[46, 33, 63, 8230]"] d
  have "\<exists>parts slices.
         split_segment_on_punctuation_marks seg_hello [46, 33, 63, 8230] = Inr (Parts parts)
         \<and> map seg_text parts = map (\<lambda>s. Some (Str (lead_space s))) slices
         \<and> concat slices = ascii ''Hello world. How are you?''"
    by blast
  with w t show ?thesis by simp
qed

text \<open>
  The claim as first stated says that the texts of the parts, without the leading spaces
  that were put in, give back the original text. For the text \<^verbatim>\<open>' Wait... what?'\<close> the
  punctuation split returns the texts \<^verbatim>\<open>' Wait\<dots>'\<close> and \<^verbatim>\<open>' what?'\<close>; with or without the
  first character of either, their concatenation is not the original text.
\<close>

theorem punctuation_split_replaces_dots:
  "seg_words seg_dots \<noteq> Some []
   \<and> seg_text seg_dots = Some (Str (ascii '' Wait... what?''))
   \<and> split_segment_on_punctuation_marks seg_dots [46, 33, 63, 8230] =
       Inr (Parts
         [\<lparr>seg_id = None, seg_start = 0, seg_end = 2,
           seg_text = Some (Str [32, 87, 97, 105, 116, 8230]),
           seg_words = Some [], seg_info = []\<rparr>,
          \<lparr>seg_id = None, seg_start = 0, seg_end = 2,
           seg_text = Some (Str [32, 119, 104, 97, 116, 63]),
           seg_words = Some [], seg_info = []\<rparr>])
   \<and> [32, 87, 97, 105, 116, 8230] @ [32, 119, 104, 97, 116, 63] \<noteq> ascii '' Wait... what?''
   \<and> [87, 97, 105, 116, 8230] @ [32, 119, 104, 97, 116, 63] \<noteq> ascii '' Wait... what?''
   \<and> [32, 87, 97, 105, 116, 8230] @ [119, 104, 97, 116, 63] \<noteq> ascii '' Wait... what?''
   \<and> [87, 97, 105, 116, 8230] @ [119, 104, 97, 116, 63] \<noteq> ascii '' Wait... what?''"
  by (simp add: split_segment_on_punctuation_marks_def seg_dots_def ascii_def
      punctuation_loop.simps extend_marks.simps first_punctuation_mark_index_def py_find_def
      new_segment_def lead_space_def remove_words_def Let_def)

text \<open>
  The limit split cuts \<^verbatim>\<open>' Hello world'\<close> at the space: the pieces are \<^verbatim>\<open>' Hello'\<close> and
  \<^verbatim>\<open>'world'\<close>, and the second gets a leading space put in front.
\<close>

lemma limit_split_two_words:
  "split_segment_by_word_limits (Dict seg_two_words) (Some 1) None =
   Inr (Parts
       [\<lparr>seg_id = None, seg_start = 0, seg_end = 1,
           seg_text = Some (Str (ascii '' Hello'')),
           seg_words = Some [\<lparr>w_word = ascii '' Hello'', w_start = 0, w_end = 1\<rparr>],
           seg_info = []\<rparr>,
        \<lparr>seg_id = None, seg_start = 1, seg_end = 2,
           seg_text = Some (Str (ascii '' world'')),
           seg_words = Some [\<lparr>w_word = ascii '' world'', w_start = 1, w_end = 2\<rparr>],
           seg_info = []\<rparr>])"
  by (simp add: split_segment_by_word_limits_def seg_two_words_def ascii_def
      limits_loop.simps last_space_index_def find_nth_def py_find_def py_rfind_def
      new_segment_def lead_space_def remove_words_def Let_def)

text \<open>The scenario of the specification: one sentence end inside the text.\<close>

lemma punctuation_split_hello:
  "split_segment_on_punctuation_marks seg_hello [46, 33, 63, 8230] =
   Inr (Parts
       [\<lparr>seg_id = None, seg_start = 0, seg_end = 2,
           seg_text = Some (Str (ascii '' Hello world.'')),
           seg_words = Some [\<lparr>w_word = ascii ''Hello'', w_start = 0, w_end = 1\<rparr>,
                             \<lparr>w_word = ascii '' world.'', w_start = 1, w_end = 2\<rparr>],
           seg_info = []\<rparr>,
        \<lparr>seg_id = None, seg_start = 2, seg_end = 5,
           seg_text = Some (Str (ascii '' How are you?'')),
           seg_words = Some [\<lparr>w_word = ascii '' How'', w_start = 2, w_end = 3\<rparr>,
                             \<lparr>w_word = ascii '' are'', w_start = 3, w_end = 4\<rparr>,
                             \<lparr>w_word = ascii '' you?'', w_start = 4, w_end = 5\<rparr>],
           seg_info = []\<rparr>])"
  by (simp add: split_segment_on_punctuation_marks_def seg_hello_def ascii_def
      punctuation_loop.simps extend_marks.simps first_punctuation_mark_index_def py_find_def
      new_segment_def lead_space_def remove_words_def Let_def)

section \<open>The stitcher\<close>

subsection \<open>The ids of the segments\<close>

text \<open>
  The segments of one window get the ids from \<^verbatim>\<open>next_segment_id + id_count\<close> on, one after
  the other, and \<^verbatim>\<open>id_count\<close> is the number of segments in \<^verbatim>\<open>results\<close>: this holds before
  the first window and every window keeps it.
\<close>

lemma offset_segments_ids:
  "map seg_id (offset_segments opts s e next_segment_id c segs)
     = map (\<lambda>i. Some (next_segment_id + int i)) [c..<c + length segs]"
proof (induction segs arbitrary: c)
  case Nil
  show ?case by simp
next
  case (Cons a segs)
  have "[c..<c + length (a # segs)] = c # [c + 1..<c + 1 + length segs]"
    by (subst upt_rec) simp
  with Cons [of "c + 1"] show ?case by (simp add: offset_segment_def)
qed

lemma length_offset_segments [simp]:
  "length (offset_segments opts s e n c segs) = length segs"
  by (induction segs arbitrary: c) simp_all

lemma ids_append:
  assumes "map seg_id xs = map (\<lambda>i. Some (n + int i)) [0..<length xs]"
  shows "map seg_id (xs @ offset_segments opts s e n (length xs) segs)
         = map (\<lambda>i. Some (n + int i)) [0..<length (xs @ offset_segments opts s e n (length xs) segs)]"
proof -
  have "[0..<length xs + length segs] = [0..<length xs] @ [length xs..<length xs + length segs]"
    by (rule upt_add_eq_append) simp
  then show ?thesis using assms by (simp add: offset_segments_ids)
qed

lemma transcribe_window_Inr:
  assumes "transcribe_window backend td n (s, e, au) st = Inr st'"
  obtains result item result' where
    "backend (st_item st) td (s, e, au) = (result, item)"
    "st_item st' = item"
    "st_result st' = result'"
    "st_id_count st' = st_id_count st + length (result_segments result')"
    "st_results st' =
       (if result_segments result' = [] then st_results st
        else (st_results st)
          \<lparr>r_segments := r_segments (st_results st)
             @ offset_segments (st_options st') s e n (st_id_count st) (result_segments result'),
           r_whisper_language :=
             Some (case res_language (the result') of None \<Rightarrow> [] | Some l \<Rightarrow> l)\<rparr>)"
    "post_process_whisper_result (st_options st') result = Inr result'"
    "st_options st' = (st_options st)
               \<lparr>post_remove_word_timestamps :=
                  Some (case post_remove_word_timestamps (st_options st) of
                          None \<Rightarrow> True | Some b \<Rightarrow> b)\<rparr>"
    "st_transcription st' =
       map_option
         (\<lambda>t. save_soon (if result_segments result' = [] then t
               else add_segments (offset_segments (st_options st') s e n (st_id_count st)
                      (result_segments result')) t))
         (map_option (delete_segments_between s e) (st_transcription st))"
proof -
  obtain result item where b: "backend (st_item st) td (s, e, au) = (result, item)" by force
  define opts where "opts = (st_options st)
               \<lparr>post_remove_word_timestamps :=
                  Some (case post_remove_word_timestamps (st_options st) of
                          None \<Rightarrow> True | Some b \<Rightarrow> b)\<rparr>"
  from assms obtain result' where p: "post_process_whisper_result opts result = Inr result'"
    by (cases "post_process_whisper_result opts result")
      (simp_all add: transcribe_window_def b Let_def opts_def)
  from assms [symmetric] have "Inr st' = (Inr (st\<lparr>st_item := item,
        st_transcription := map_option
         (\<lambda>t. save_soon (if result_segments result' = [] then t
               else add_segments (offset_segments opts s e n (st_id_count st)
                      (result_segments result')) t))
         (map_option (delete_segments_between s e) (st_transcription st)),
        st_results := (if result_segments result' = [] then st_results st
        else (st_results st)
          \<lparr>r_segments := r_segments (st_results st)
             @ offset_segments opts s e n (st_id_count st) (result_segments result'),
           r_whisper_language :=
             Some (case res_language (the result') of None \<Rightarrow> [] | Some l \<Rightarrow> l)\<rparr>),
        st_result := result',
        st_id_count := st_id_count st + length (result_segments result'),
        st_options := opts\<rparr>) :: (py_error \<times> 'a stitch) + 'a stitch)"
    by (simp add: transcribe_window_def b Let_def opts_def [symmetric] p)
  then have st': "st' = st\<lparr>st_item := item,
        st_transcription := map_option
         (\<lambda>t. save_soon (if result_segments result' = [] then t
               else add_segments (offset_segments opts s e n (st_id_count st)
                      (result_segments result')) t))
         (map_option (delete_segments_between s e) (st_transcription st)),
        st_results := (if result_segments result' = [] then st_results st
        else (st_results st)
          \<lparr>r_segments := r_segments (st_results st)
             @ offset_segments opts s e n (st_id_count st) (result_segments result'),
           r_whisper_language :=
             Some (case res_language (the result') of None \<Rightarrow> [] | Some l \<Rightarrow> l)\<rparr>),
        st_result := result',
        st_id_count := st_id_count st + length (result_segments result'),
        st_options := opts\<rparr>"
    by (simp only: sum.inject)
  show thesis
    by (rule that [of result item result'])
      (simp_all add: b st' p opts_def [symmetric] cong: if_cong)
qed

lemma transcribe_window_ids:
  assumes "transcribe_window backend td n a st = Inr st'" and "ids_ok n st"
  shows "ids_ok n st'"
proof -
  obtain s e au where a: "a = (s, e, au)" by (cases a)
  from assms(2) have c: "st_id_count st = length (r_segments (st_results st))"
    and i: "map seg_id (r_segments (st_results st))
         = map (\<lambda>i. Some (n + int i)) [0..<length (r_segments (st_results st))]"
    by (simp_all add: ids_ok_def)
  from assms(1) [unfolded a] show ?thesis
  proof (rule transcribe_window_Inr)
    fix result item result'
    assume r: "st_results st' =
       (if result_segments result' = [] then st_results st
        else (st_results st)
          \<lparr>r_segments := r_segments (st_results st)
             @ offset_segments (st_options st') s e n (st_id_count st) (result_segments result'),
           r_whisper_language :=
             Some (case res_language (the result') of None \<Rightarrow> [] | Some l \<Rightarrow> l)\<rparr>)"
      and k: "st_id_count st' = st_id_count st + length (result_segments result')"
    show "ids_ok n st'"
    proof (cases "result_segments result' = []")
      case True
      with r k c i show ?thesis by (simp add: ids_ok_def)
    next
      case False
      with r k c ids_append [OF i, of "st_options st'" s e "result_segments result'"]
      show ?thesis by (simp add: ids_ok_def)
    qed
  qed
qed

lemma transcribe_loop_ids:
  "transcribe_loop backend td n ws st = Inr st' \<Longrightarrow> ids_ok n st \<Longrightarrow> ids_ok n st'"
proof (induction backend td n ws st rule: transcribe_loop.induct)
  case (1 backend td n st)
  then show ?case by simp
next
  case (2 backend td n x ws st)
  then show ?case by simp
next
  case (3 backend td n a ws st)
  from "3.prems"(1) obtain st1 where w: "transcribe_window backend td n a st = Inr st1"
    and l: "transcribe_loop backend td n ws st1 = Inr st'"
    by (cases "transcribe_window backend td n a st") simp_all
  from transcribe_window_ids [OF w "3.prems"(2)] have "ids_ok n st1" .
  from "3.IH" [OF w l this] show ?case .
qed

lemma ids_ok_initial: "ids_ok n (initial_stitch opts tr item)"
  by (simp add: ids_ok_def initial_stitch_def)

lemma ids_ok_copy_status: "ids_ok n (copy_status st) = ids_ok n st"
  by (simp add: ids_ok_def copy_status_def split: option.splits)

subsection \<open>A backend that reports the cancellation\<close>

text \<open>
  The loop over a list of windows is the loop over its first part followed by the loop over
  the rest. A result that reports the cancellation goes through the post-processing with
  no segments, so the window adds nothing to \<^verbatim>\<open>results\<close> and nothing to the store; the stored
  segments of the window are deleted all the same.
\<close>

lemma transcribe_loop_append:
  "transcribe_loop backend td n (xs @ ys) st =
     (case transcribe_loop backend td n xs st of
        Inl e \<Rightarrow> Inl e
      | Inr st' \<Rightarrow> transcribe_loop backend td n ys st')"
  by (induction backend td n xs st rule: transcribe_loop.induct)
    (simp_all split: sum.splits)

lemma post_process_canceled:
  assumes "canceled_result result"
  shows "\<exists>result'. post_process_whisper_result opts result = Inr result'
           \<and> canceled_result result' \<and> result_segments result' = []"
proof -
  from assms obtain r where r: "result = Some r" "res_status r = Some ''canceled''"
    "res_segments r = None \<or> res_segments r = Some []"
    by (auto simp: canceled_result_def split: option.splits)
  from r(3) show ?thesis
  proof
    assume "res_segments r = None"
    with r show ?thesis
      by (simp add: post_process_whisper_result_def canceled_result_def result_segments_def)
  next
    assume "res_segments r = Some []"
    with r show ?thesis
      by (simp add: post_process_whisper_result_def canceled_result_def result_segments_def
          split_segments_def segments_loop.simps)
  qed
qed

lemma delete_windows_saved: "delete_windows ws (t\<lparr>t_saved := x\<rparr>) = delete_windows ws t"
proof (induction ws t rule: delete_windows.induct)
  case (1 t)
  show ?case by (simp add: save_soon_def)
next
  case (2 s e au ws t)
  have "delete_segments_between s e (t\<lparr>t_saved := x\<rparr>)
        = (delete_segments_between s e t)\<lparr>t_saved := x\<rparr>"
    by (simp add: delete_segments_between_def)
  then show ?case using 2 by simp
next
  case (3 x ws t)
  then show ?case by simp
qed

lemma delete_windows_save: "delete_windows ws (save_soon t) = delete_windows ws t"
  by (simp add: save_soon_def delete_windows_saved)

lemma transcribe_window_canceled:
  assumes hon: "\<forall>item td a. C item \<longrightarrow>
                  (\<exists>r item'. backend item td a = (r, item') \<and> C item' \<and> canceled_result r)"
    and c: "C (st_item st)"
  shows "\<exists>st'. transcribe_window backend td n (s, e, au) st = Inr st'
           \<and> C (st_item st') \<and> canceled_result (st_result st')
           \<and> st_results st' = st_results st
           \<and> st_id_count st' = st_id_count st
           \<and> st_transcription st'
               = map_option (\<lambda>t. save_soon (delete_segments_between s e t)) (st_transcription st)"
proof -
  from hon c obtain r item' where
    b: "backend (st_item st) td (s, e, au) = (r, item')" and c': "C item'"
    and r: "canceled_result r" by blast
  define opts where "opts = (st_options st)
               \<lparr>post_remove_word_timestamps :=
                  Some (case post_remove_word_timestamps (st_options st) of
                          None \<Rightarrow> True | Some b \<Rightarrow> b)\<rparr>"
  from post_process_canceled [OF r, of opts] obtain result' where
    p: "post_process_whisper_result opts r = Inr result'"
    and r': "canceled_result result'" and e: "result_segments result' = []"
    by blast
  show ?thesis
    by (simp add: transcribe_window_def b Let_def opts_def [symmetric] p e c' r'
        option.map_comp comp_def)
qed

lemma transcribe_loop_canceled:
  assumes hon: "\<forall>item td a. C item \<longrightarrow>
                  (\<exists>r item'. backend item td a = (r, item') \<and> C item' \<and> canceled_result r)"
  shows "C (st_item st) \<Longrightarrow> canceled_result (st_result st) \<Longrightarrow>
         \<exists>st'. transcribe_loop backend td n ws st = Inr st'
           \<and> C (st_item st') \<and> canceled_result (st_result st')
           \<and> st_results st' = st_results st
           \<and> st_id_count st' = st_id_count st
           \<and> map_option save_soon (st_transcription st')
               = map_option (delete_windows ws) (st_transcription st)"
proof (induction ws arbitrary: st)
  case Nil
  then show ?case by (simp cong: option.map_cong)
next
  case (Cons w ws)
  show ?case
  proof (cases w)
    case (Other x)
    with Cons show ?thesis by simp
  next
    case (Window a)
    obtain s e au where a: "a = (s, e, au)" by (cases a)
    from transcribe_window_canceled
      [where C = C and backend = backend and td = td and n = n and s = s and e = e
         and au = au, OF hon Cons.prems(1)]
    obtain st1 where w: "transcribe_window backend td n (s, e, au) st = Inr st1"
      and c1: "C (st_item st1)" and r1: "canceled_result (st_result st1)"
      and res1: "st_results st1 = st_results st" and k1: "st_id_count st1 = st_id_count st"
      and t1: "st_transcription st1
               = map_option (\<lambda>t. save_soon (delete_segments_between s e t)) (st_transcription st)"
      by blast
    from Cons.IH [OF c1 r1] obtain st' where
      l: "transcribe_loop backend td n ws st1 = Inr st'"
      and c': "C (st_item st')" and r': "canceled_result (st_result st')"
      and res': "st_results st' = st_results st1" and k': "st_id_count st' = st_id_count st1"
      and t': "map_option save_soon (st_transcription st')
               = map_option (delete_windows ws) (st_transcription st1)"
      by blast
    have "map_option save_soon (st_transcription st')
            = map_option (delete_windows (w # ws)) (st_transcription st)"
      by (cases "st_transcription st") (simp_all add: t' t1 Window a delete_windows_save)
    with l c' r' res' k' w res1 k1 show ?thesis
      by (cases "st_transcription st") (simp_all add: Window a)
  qed
qed

subsection \<open>The claims\<close>

lemmas run_defs = whisper_transcribe_segments_def transcribe_window_def initial_stitch_def
  copy_status_def post_process_whisper_result_def split_segments_def segments_loop.simps
  valid_text_def remove_word_timestamps_def fill_gap_def result_segments_def
  offset_segment_def delete_segments_between_def add_segments_def save_soon_def
  next_id_def generate_new_segment_id_def stored_ids_def Let_def
  two_segments_def canceled_def deaf_backend_def canceled_in_first_call_def three_windows_def
  transcribing_def empty_store_def old_store_def seg_a_def seg_b_def no_options_def ascii_def

text \<open>
  Claim C3. When \<^verbatim>\<open>whisper_transcribe_segments\<close> returns, the segments of \<^verbatim>\<open>results\<close>, in the
  order in which they were emitted (window after window, and within a window in the order
  of the post-processed result), have the ids \<^verbatim>\<open>next_segment_id\<close>, \<^verbatim>\<open>next_segment_id + 1\<close>, and
  so on, where \<^verbatim>\<open>next_segment_id\<close> is the new id of the transcription store, or 0 without a
  store. So every segment has an id, the ids are strictly increasing in that order, and no
  two segments of the call share one.
\<close>

theorem stitcher_ids_increasing:
  assumes "whisper_transcribe_segments backend audio_segments other_options transcription item = Inr st"
  shows "map seg_id (r_segments (st_results st))
           = map (\<lambda>i. Some (next_id transcription + int i)) [0..<length (r_segments (st_results st))]
         \<and> distinct (map seg_id (r_segments (st_results st)))
         \<and> (\<forall>i j. i < j \<and> j < length (r_segments (st_results st)) \<longrightarrow>
               (\<exists>a b. seg_id (r_segments (st_results st) ! i) = Some a
                     \<and> seg_id (r_segments (st_results st) ! j) = Some b \<and> a < b))"
proof -
  from assms obtain td st0 where
    l: "transcribe_loop backend td (next_id transcription) audio_segments
          (initial_stitch other_options transcription item) = Inr st0"
    and s: "st = copy_status st0"
    by (auto simp: whisper_transcribe_segments_def split: sum.splits)
  from transcribe_loop_ids [OF l ids_ok_initial] s
  have ok: "ids_ok (next_id transcription) st" by (simp add: ids_ok_copy_status)
  then have m: "map seg_id (r_segments (st_results st))
           = map (\<lambda>i. Some (next_id transcription + int i)) [0..<length (r_segments (st_results st))]"
    by (simp add: ids_ok_def)
  have d: "distinct (map seg_id (r_segments (st_results st)))"
    by (subst m) (simp add: distinct_map inj_on_def)
  have n: "\<And>i. i < length (r_segments (st_results st)) \<Longrightarrow>
            seg_id (r_segments (st_results st) ! i) = Some (next_id transcription + int i)"
  proof -
    fix i assume i: "i < length (r_segments (st_results st))"
    then have "seg_id (r_segments (st_results st) ! i) = map seg_id (r_segments (st_results st)) ! i"
      by simp
    also have "\<dots> = Some (next_id transcription + int i)"
      using i by (subst m) simp
    finally show "seg_id (r_segments (st_results st) ! i) = Some (next_id transcription + int i)" .
  qed
  show ?thesis
  proof (intro conjI allI impI)
    show "map seg_id (r_segments (st_results st))
           = map (\<lambda>i. Some (next_id transcription + int i))
               [0..<length (r_segments (st_results st))]"
      by (rule m)
    show "distinct (map seg_id (r_segments (st_results st)))" by (rule d)
    fix i j
    assume "i < j \<and> j < length (r_segments (st_results st))"
    then have ij: "i < j" and j: "j < length (r_segments (st_results st))"
      and i: "i < length (r_segments (st_results st))" by simp_all
    from n [OF i] n [OF j] ij
    show "\<exists>a b. seg_id (r_segments (st_results st) ! i) = Some a
                \<and> seg_id (r_segments (st_results st) ! j) = Some b \<and> a < b"
      by simp
  qed
qed

theorem stitcher_ids_increasing_witness:
  "\<exists>st. whisper_transcribe_segments deaf_backend three_windows no_options (Some old_store)
          transcribing = Inr st
        \<and> map seg_id (r_segments (st_results st))
            = [Some 8, Some 9, Some 10, Some 11, Some 12, Some 13]"
proof -
  have "\<exists>st. whisper_transcribe_segments deaf_backend three_windows no_options (Some old_store)
          transcribing = Inr st
        \<and> length (r_segments (st_results st)) = 6"
    by (simp add: run_defs)
  then obtain st where e: "whisper_transcribe_segments deaf_backend three_windows no_options
      (Some old_store) transcribing = Inr st"
    and len: "length (r_segments (st_results st)) = 6" by (elim exE conjE)
  have n: "next_id (Some old_store) = 8" by (simp add: run_defs)
  have u: "[0..<6] = [0, 1, 2, 3, 4, 5]" by (simp add: upt_rec)
  from stitcher_ids_increasing [OF e]
  have "map seg_id (r_segments (st_results st))
           = map (\<lambda>i. Some (next_id (Some old_store) + int i))
               [0..<length (r_segments (st_results st))]" by blast
  then have "map seg_id (r_segments (st_results st))
            = [Some 8, Some 9, Some 10, Some 11, Some 12, Some 13]"
    by (simp add: len n u)
  with e show ?thesis by (intro exI [of _ st]) simp
qed

text \<open>
  Claim C2, as amended. The loop of the stitcher never asks the queue whether the item was
  cancelled: it learns of a cancellation from the result of the backend only. Let \<open>C\<close> be a
  condition on the queue item under which every call of the backend reports the
  cancellation (a dict with the status \<^verbatim>\<open>canceled\<close> and no segments) and keeps \<open>C\<close>. If \<open>C\<close>
  holds after the windows \<open>before\<close>, then the run over \<open>before\<close>, a window \<open>a\<close> and the windows
  \<open>after\<close> returns the segments of the windows \<open>before\<close> and no others, with the status
  \<^verbatim>\<open>canceled\<close>; the store is what it was after the windows \<open>before\<close>, with the stored
  segments of \<open>a\<close> and of the later windows deleted, and saved; and \<^verbatim>\<open>whisper_transcribe\<close>
  writes the status \<^verbatim>\<open>canceled\<close> to the queue item and returns \<^verbatim>\<open>None\<close>.
\<close>

theorem canceled_from_window:
  assumes hon: "\<forall>item td a. C item \<longrightarrow>
                  (\<exists>r item'. backend item td a = (r, item') \<and> C item' \<and> canceled_result r)"
    and tot: "total_duration (before @ Window a # after) = Inr td"
    and pre: "transcribe_loop backend td (next_id transcription) before
                (initial_stitch other_options transcription item) = Inr st1"
    and c: "C (st_item st1)"
  shows "\<exists>st. whisper_transcribe_segments backend (before @ Window a # after) other_options
                 transcription item = Inr st
           \<and> r_segments (st_results st) = r_segments (st_results st1)
           \<and> r_status (st_results st) = Some ''canceled''
           \<and> map_option save_soon (st_transcription st)
               = map_option (delete_windows (Window a # after)) (st_transcription st1)
           \<and> C (st_item st)
           \<and> (\<forall>t path. transcription = Some t \<longrightarrow>
                 whisper_transcribe backend (before @ Window a # after) other_options path t item
                 = (False, st_transcription st,
                    (st_item st)\<lparr>q_status := ''canceled'', q_progress := None,
                                 q_fail_error := None\<rparr>))"
proof -
  obtain s e au where a: "a = (s, e, au)" by (cases a)
  from transcribe_window_canceled
      [where C = C and backend = backend and td = td and n = "next_id transcription"
         and s = s and e = e and au = au, OF hon c]
  obtain st2 where w: "transcribe_window backend td (next_id transcription) a st1 = Inr st2"
    and c2: "C (st_item st2)" and r2: "canceled_result (st_result st2)"
    and res2: "st_results st2 = st_results st1"
    and t2: "st_transcription st2
               = map_option (\<lambda>t. save_soon (delete_segments_between s e t)) (st_transcription st1)"
    unfolding a by blast
  from transcribe_loop_canceled
      [where C = C and backend = backend and td = td and n = "next_id transcription"
         and ws = after, OF hon c2 r2]
  obtain st3 where l: "transcribe_loop backend td (next_id transcription) after st2 = Inr st3"
    and c3: "C (st_item st3)" and r3: "canceled_result (st_result st3)"
    and res3: "st_results st3 = st_results st2"
    and t3: "map_option save_soon (st_transcription st3)
               = map_option (delete_windows after) (st_transcription st2)"
    by blast
  have loop: "transcribe_loop backend td (next_id transcription) (before @ Window a # after)
                (initial_stitch other_options transcription item) = Inr st3"
    by (simp add: transcribe_loop_append pre w l)
  from r3 obtain r where r: "st_result st3 = Some r" "res_status r = Some ''canceled''"
    by (auto simp: canceled_result_def split: option.splits)
  have cs: "copy_status st3 = st3\<lparr>st_results := (st_results st3)\<lparr>r_status := Some ''canceled''\<rparr>\<rparr>"
    by (simp add: copy_status_def r)
  have wts: "whisper_transcribe_segments backend (before @ Window a # after) other_options
                 transcription item = Inr (copy_status st3)"
    by (simp add: whisper_transcribe_segments_def tot loop)
  have tr: "map_option save_soon (st_transcription (copy_status st3))
               = map_option (delete_windows (Window a # after)) (st_transcription st1)"
    by (cases "st_transcription st1") (simp_all add: cs t3 t2 a delete_windows_save)
  have wt: "whisper_transcribe backend (before @ Window a # after) other_options path t item
                 = (False, st_transcription (copy_status st3),
                    (st_item (copy_status st3))\<lparr>q_status := ''canceled'', q_progress := None,
                                 q_fail_error := None\<rparr>)"
    if "transcription = Some t" for t path
    using that by (simp add: whisper_transcribe_def wts [unfolded that] cs)
  show ?thesis
    using wts tr wt c3 by (simp add: cs res3 res2)
qed

theorem canceled_from_window_witness:
  "\<exists>st. whisper_transcribe_segments canceled_in_first_call three_windows no_options
          (Some empty_store) transcribing = Inr st
        \<and> map seg_start (r_segments (st_results st)) = [0, 5 / 2]
        \<and> r_status (st_results st) = Some ''canceled''
        \<and> whisper_transcribe canceled_in_first_call three_windows no_options
            ''a.transcription.json'' empty_store transcribing
           = (False, st_transcription st,
              (st_item st)\<lparr>q_status := ''canceled'', q_progress := None, q_fail_error := None\<rparr>)"
proof -
  have hon: "\<forall>item td a. q_cancel_requested item \<longrightarrow>
      (\<exists>r item'. canceled_in_first_call item td a = (r, item') \<and> q_cancel_requested item'
          \<and> canceled_result r)"
    by (simp add: canceled_in_first_call_def canceled_result_def canceled_def)
  have tot: "total_duration ([Window (0, 5, [])] @ Window (10, 15, []) # [Window (20, 25, [])])
               = Inr 15"
    by simp
  have "\<exists>st1. transcribe_loop canceled_in_first_call 15 (next_id (Some empty_store))
           [Window (0, 5, [])] (initial_stitch no_options (Some empty_store) transcribing)
           = Inr st1
         \<and> q_cancel_requested (st_item st1)
         \<and> map seg_start (r_segments (st_results st1)) = [0, 5 / 2]"
    by (simp add: run_defs)
  then obtain st1 where
    pre: "transcribe_loop canceled_in_first_call 15 (next_id (Some empty_store))
           [Window (0, 5, [])] (initial_stitch no_options (Some empty_store) transcribing)
           = Inr st1"
    and c: "q_cancel_requested (st_item st1)"
    and s: "map seg_start (r_segments (st_results st1)) = [0, 5 / 2]" by (elim exE conjE)
  have w: "[Window (0, 5, [])] @ Window (10, 15, []) # [Window (20, 25, [])] = three_windows"
    by (simp add: three_windows_def)
  from canceled_from_window
    [where C = q_cancel_requested and backend = canceled_in_first_call, OF hon tot pre c,
      unfolded w]
  obtain st where
    e: "whisper_transcribe_segments canceled_in_first_call three_windows no_options
          (Some empty_store) transcribing = Inr st"
    and r: "r_segments (st_results st) = r_segments (st_results st1)"
    and t: "r_status (st_results st) = Some ''canceled''"
    and a: "\<forall>t path. Some empty_store = Some t \<longrightarrow>
         whisper_transcribe canceled_in_first_call three_windows no_options path t transcribing
           = (False, st_transcription st,
              (st_item st)\<lparr>q_status := ''canceled'', q_progress := None, q_fail_error := None\<rparr>)"
    by (elim exE conjE)
  from a have "whisper_transcribe canceled_in_first_call three_windows no_options
            ''a.transcription.json'' empty_store transcribing
           = (False, st_transcription st,
              (st_item st)\<lparr>q_status := ''canceled'', q_progress := None, q_fail_error := None\<rparr>)"
    by simp
  with e r t s show ?thesis by (intro exI [of _ st]) simp
qed

text \<open>
  The claim as first stated has the stitcher poll the cancellation between the windows.
  Here the cancellation is requested before the first window, and the backend does not
  look at the queue item: both windows are transcribed, their four segments are returned
  without a status and saved, and the transcription is marked complete; the item becomes
  \<^verbatim>\<open>canceled\<close> only at the check near the end of \<^verbatim>\<open>whisper_transcribe\<close>.
\<close>

theorem stitcher_does_not_poll:
  "q_cancel_requested (transcribing\<lparr>q_cancel_requested := True\<rparr>)
   \<and> \<not> isl (whisper_transcribe_segments deaf_backend [Window (0, 5, []), Window (10, 15, [])]
              no_options (Some empty_store) (transcribing\<lparr>q_cancel_requested := True\<rparr>))
   \<and> map seg_start (r_segments (st_results (projr
         (whisper_transcribe_segments deaf_backend [Window (0, 5, []), Window (10, 15, [])]
            no_options (Some empty_store) (transcribing\<lparr>q_cancel_requested := True\<rparr>)))))
       = [0, 5 / 2, 10, 25 / 2]
   \<and> r_status (st_results (projr
         (whisper_transcribe_segments deaf_backend [Window (0, 5, []), Window (10, 15, [])]
            no_options (Some empty_store) (transcribing\<lparr>q_cancel_requested := True\<rparr>))))
       = None
   \<and> map seg_start (t_saved (the (fst (snd
         (whisper_transcribe deaf_backend [Window (0, 5, []), Window (10, 15, [])] no_options
            ''a.transcription.json'' empty_store
            (transcribing\<lparr>q_cancel_requested := True\<rparr>))))))
       = [0, 5 / 2, 10, 25 / 2]
   \<and> \<not> t_incomplete (the (fst (snd
         (whisper_transcribe deaf_backend [Window (0, 5, []), Window (10, 15, [])] no_options
            ''a.transcription.json'' empty_store
            (transcribing\<lparr>q_cancel_requested := True\<rparr>)))))
   \<and> q_status (snd (snd
         (whisper_transcribe deaf_backend [Window (0, 5, []), Window (10, 15, [])] no_options
            ''a.transcription.json'' empty_store
            (transcribing\<lparr>q_cancel_requested := True\<rparr>))))
       = ''canceled''"
  by (simp add: run_defs whisper_transcribe_def cancel_if_canceled_def)

end
